theory Spec2Isabelle
  imports Complex_Main "HOL-Library.AList"
begin

section \<open>Strings\<close>

text \<open>
  A JavaScript string is a sequence of UTF-16 code units. The model uses \<open>string\<close>, so a
  character is a code unit below 256 (Latin-1). The built-ins \<open>trim\<close> and
  \<open>toLowerCase\<close> are written out for that range: the white space of ECMAScript there is
  TAB, LF, VT, FF, CR, SPACE and NBSP; the letters with a lower-case form are A-Z and
  U+00C0 to U+00DE without the multiplication sign U+00D7, each 32 below its lower-case form.
\<close>

definition is_digit :: "char \<Rightarrow> bool" where
  "is_digit c = (let n = (of_char c :: nat) in 48 \<le> n \<and> n \<le> 57)"

definition is_ascii_letter :: "char \<Rightarrow> bool" where
  "is_ascii_letter c =
     (let n = (of_char c :: nat) in (65 \<le> n \<and> n \<le> 90) \<or> (97 \<le> n \<and> n \<le> 122))"

definition is_word_char :: "char \<Rightarrow> bool" where
  "is_word_char c = (is_ascii_letter c \<or> is_digit c \<or> c = CHR ''_'')"

definition is_white_space :: "char \<Rightarrow> bool" where
  "is_white_space c =
     (c \<in> set [CHR 0x09, CHR 0x0A, CHR 0x0B, CHR 0x0C, CHR 0x0D, CHR 0x20, CHR 0xA0])"

definition is_upper :: "char \<Rightarrow> bool" where
  "is_upper c = (let n = (of_char c :: nat) in
     (65 \<le> n \<and> n \<le> 90) \<or> (192 \<le> n \<and> n \<le> 222 \<and> n \<noteq> 215))"

text \<open>Adding 32 to an upper-case code unit sets its bit 5, which is clear there.\<close>

definition lower_char :: "char \<Rightarrow> char" where
  "lower_char c = (if is_upper c
     then (case c of Char b0 b1 b2 b3 b4 b5 b6 b7 \<Rightarrow> Char b0 b1 b2 b3 b4 True b6 b7)
     else c)"

definition toLowerCase :: "string \<Rightarrow> string" where
  "toLowerCase s = map lower_char s"

definition drop_trailing :: "('a \<Rightarrow> bool) \<Rightarrow> 'a list \<Rightarrow> 'a list" where
  "drop_trailing P s = rev (dropWhile P (rev s))"

definition trim :: "string \<Rightarrow> string" where
  "trim s = drop_trailing is_white_space (dropWhile is_white_space s)"

text \<open>\<open>split('\n')\<close>: the pieces between line feeds; the empty string gives one empty piece.\<close>

fun split_lines :: "string \<Rightarrow> string list" where
  "split_lines [] = [[]]"
| "split_lines (c # cs) =
     (if c = CHR 0x0A then [] # split_lines cs
      else (case split_lines cs of
              [] \<Rightarrow> [[c]]
            | l # ls \<Rightarrow> (c # l) # ls))"

text \<open>\<open>xs.slice(start, end)\<close> for indices that are not negative.\<close>

definition slice :: "'a list \<Rightarrow> nat \<Rightarrow> nat \<Rightarrow> 'a list" where
  "slice xs start end = drop start (take end xs)"

section \<open>Values\<close>

text \<open>
  The raw values the classifier and the converter receive: the cells of a CSV line are
  strings, the fields of a parsed JSON record are scalars. A number is held as the text
  that \<open>String\<close> gives for it (the printing of numbers is not modelled); \<open>undefined\<close> is
  what reading a cell beyond the end of a row gives.
\<close>

datatype jsvalue = JNull | JUndefined | JBoolean bool | JNumber string | JString string

fun String :: "jsvalue \<Rightarrow> string" where
  "String JNull = ''null''"
| "String JUndefined = ''undefined''"
| "String (JBoolean b) = (if b then ''true'' else ''false'')"
| "String (JNumber text) = text"
| "String (JString s) = s"

text \<open>\<open>row[index]\<close> on an array of strings.\<close>

definition at_index :: "string list \<Rightarrow> nat \<Rightarrow> jsvalue" where
  "at_index xs i = (if i < length xs then JString (xs ! i) else JUndefined)"

section \<open>The regular expressions of the source\<close>

text \<open>
  Every regular expression of the two value functions is a sequence of quantified character
  classes, anchored at the start: \<open>Rep P lo hi\<close> is the class \<open>P\<close> repeated at least
  \<open>lo\<close> and at most \<open>hi\<close> times (no upper bound for \<open>None\<close>). \<open>regex_match True\<close> is
  the test of an expression that ends in \<open>$\<close>, \<open>regex_match False\<close> of one that does
  not (a prefix match). The matcher tries every split, as backtracking does.
\<close>

datatype quantified = Rep "char \<Rightarrow> bool" nat "nat option"

fun regex_match :: "bool \<Rightarrow> quantified list \<Rightarrow> string \<Rightarrow> bool" where
  "regex_match to_end [] s = (if to_end then s = [] else True)"
| "regex_match to_end (Rep P lo hi # qs) s =
     ((lo = 0 \<and> regex_match to_end qs s) \<or>
      (case s of
         [] \<Rightarrow> False
       | c # cs \<Rightarrow> P c \<and> hi \<noteq> Some 0 \<and>
           regex_match to_end (Rep P (lo - 1) (map_option (\<lambda>h. h - 1) hi) # qs) cs))"

definition lit :: "char \<Rightarrow> quantified" where
  "lit c = Rep (\<lambda>d. d = c) 1 (Some 1)"

definition optional :: "char \<Rightarrow> quantified" where
  "optional c = Rep (\<lambda>d. d = c) 0 (Some 1)"

definition digits :: "nat \<Rightarrow> quantified" where
  "digits n = Rep is_digit n (Some n)"

definition digits1 :: quantified where
  "digits1 = Rep is_digit 1 None"

text \<open>\<^verbatim>\<open>/^-?[0-9]+$/\<close>\<close>

definition integer_pattern :: "quantified list" where
  "integer_pattern = [optional (CHR ''-''), digits1]"

text \<open>\<^verbatim>\<open>/^-?[0-9]+[.][0-9]+$/\<close>\<close>

definition float_pattern :: "quantified list" where
  "float_pattern = [optional (CHR ''-''), digits1, lit (CHR ''.''), digits1]"

text \<open>\<^verbatim>\<open>/^[0-9]{4}-[0-9]{2}-[0-9]{2}[T ][0-9]{2}:[0-9]{2}:[0-9]{2}/\<close>\<close>

definition timestamp_pattern :: "quantified list" where
  "timestamp_pattern = [digits 4, lit (CHR ''-''), digits 2, lit (CHR ''-''), digits 2,
     Rep (\<lambda>c. c = CHR ''T'' \<or> c = CHR '' '') 1 (Some 1),
     digits 2, lit (CHR '':''), digits 2, lit (CHR '':''), digits 2]"

text \<open>\<^verbatim>\<open>/^[0-9]{4}-[0-9]{2}-[0-9]{2}$/\<close>\<close>

definition iso_date_pattern :: "quantified list" where
  "iso_date_pattern = [digits 4, lit (CHR ''-''), digits 2, lit (CHR ''-''), digits 2]"

text \<open>\<^verbatim>\<open>/^[0-9]{1,2}[/][0-9]{1,2}[/][0-9]{4}$/\<close>\<close>

definition slash_date_pattern :: "quantified list" where
  "slash_date_pattern = [Rep is_digit 1 (Some 2), lit (CHR ''/''), Rep is_digit 1 (Some 2),
     lit (CHR ''/''), digits 4]"

section \<open>sanitizeFieldName\<close>

text \<open>
  The chain of the source, one definition for each call:
  \<^verbatim>\<open>name.trim().toLowerCase().replace(/[^a-zA-Z0-9_]/g, '_')
      .replace(/^[^a-zA-Z_]/, '_$&').replace(/__+/g, '_')
      .replace(/^_+|_+$/g, '') || 'unnamed_field'\<close>
  \<open>parseCSV\<close> and \<open>parseJSON\<close> repeat the same chain inline.
\<close>

definition replace_non_word :: "string \<Rightarrow> string" where
  "replace_non_word s = map (\<lambda>c. if is_word_char c then c else CHR ''_'') s"

definition prefix_non_letter :: "string \<Rightarrow> string" where
  "prefix_non_letter s = (case s of
       [] \<Rightarrow> []
     | c # cs \<Rightarrow> if is_ascii_letter c \<or> c = CHR ''_'' then s else CHR ''_'' # s)"

text \<open>Every run of two or more underscores becomes one underscore.\<close>

function collapse_underscores :: "string \<Rightarrow> string" where
  "collapse_underscores [] = []"
| "collapse_underscores (c # cs) =
     (if c = CHR ''_'' \<and> take 1 cs = ''_''
      then CHR ''_'' # collapse_underscores (dropWhile (\<lambda>d. d = CHR ''_'') cs)
      else c # collapse_underscores cs)"
  by pat_completeness auto
termination
  by (relation "measure length") (auto simp: less_Suc_eq_le length_dropWhile_le)

definition strip_underscores :: "string \<Rightarrow> string" where
  "strip_underscores s =
     drop_trailing (\<lambda>c. c = CHR ''_'') (dropWhile (\<lambda>c. c = CHR ''_'') s)"

text \<open>\<open>s || d\<close> on strings: the empty string is the only falsy one.\<close>

definition or_default :: "string \<Rightarrow> string \<Rightarrow> string" where
  "or_default s d = (if s = [] then d else s)"

definition sanitizeFieldName :: "string \<Rightarrow> string" where
  "sanitizeFieldName name =
     or_default
       (strip_underscores (collapse_underscores (prefix_non_letter
          (replace_non_word (toLowerCase (trim name))))))
       ''unnamed_field''"

section \<open>parseCSVLine\<close>

text \<open>
  The \<open>while\<close> loop over the characters of the line; the last argument is the rest of the
  line from index \<open>i\<close>. An escaped quote advances by two, every other step by one.
\<close>

fun parseCSVLine_loop :: "string list \<Rightarrow> string \<Rightarrow> bool \<Rightarrow> string \<Rightarrow> string list" where
  "parseCSVLine_loop result current inQuotes [] = result @ [trim current]"
| "parseCSVLine_loop result current inQuotes (char # rest) =
     (if char = CHR 0x22 then
        (if inQuotes \<and> take 1 rest = [CHR 0x22]
         then parseCSVLine_loop result (current @ [CHR 0x22]) inQuotes (drop 1 rest)
         else parseCSVLine_loop result current (\<not> inQuotes) rest)
      else if char = CHR '','' \<and> \<not> inQuotes
      then parseCSVLine_loop (result @ [trim current]) [] inQuotes rest
      else parseCSVLine_loop result (current @ [char]) inQuotes rest)"

definition parseCSVLine :: "string \<Rightarrow> string list" where
  "parseCSVLine line = parseCSVLine_loop [] [] False line"

section \<open>inferColumnType\<close>

datatype field_type = STRING | INTEGER | FLOAT | BOOLEAN | TIMESTAMP | DATE

datatype field_mode = REQUIRED | NULLABLE | REPEATED

record SchemaField =
  name :: string
  type :: field_type
  mode :: field_mode

record typeCounts =
  integer :: nat
  float :: nat
  boolean :: nat
  date :: nat
  timestamp :: nat
  string :: nat

definition no_counts :: typeCounts where
  "no_counts = \<lparr>integer = 0, float = 0, boolean = 0, date = 0, timestamp = 0, string = 0\<rparr>"

text \<open>The body of \<open>values.forEach\<close>: one value, the counters before and after.\<close>

definition count_value :: "typeCounts \<Rightarrow> jsvalue \<Rightarrow> typeCounts" where
  "count_value typeCounts v =
     (let strValue = trim (String v) in
      if strValue = [] \<or> toLowerCase strValue = ''null'' then typeCounts
      else if toLowerCase strValue
                \<in> set [''true'', ''false'', ''1'', ''0'', ''yes'', ''no'', ''y'', ''n'']
        then typeCounts\<lparr>boolean := boolean typeCounts + 1\<rparr>
      else if regex_match True integer_pattern strValue
        then typeCounts\<lparr>integer := integer typeCounts + 1\<rparr>
      else if regex_match True float_pattern strValue
        then typeCounts\<lparr>float := float typeCounts + 1\<rparr>
      else if regex_match False timestamp_pattern strValue
        then typeCounts\<lparr>timestamp := timestamp typeCounts + 1\<rparr>
      else if regex_match True iso_date_pattern strValue
              \<or> regex_match True slash_date_pattern strValue
        then typeCounts\<lparr>date := date typeCounts + 1\<rparr>
      else typeCounts\<lparr>string := string typeCounts + 1\<rparr>)"

text \<open>
  \<open>count >= total * 0.7\<close>, with both numbers exact: \<open>count\<close> is a whole number, and the
  double \<open>total * 0.7\<close> lies within a rounding error of seven tenths of \<open>total\<close>, which is
  either a whole number (then the product rounds to it or to a double just below it) or at
  least one tenth away from every whole number. So the comparison of the source agrees with
  \<open>7 * total \<le> 10 * count\<close> for every array length.
\<close>

definition reaches_threshold :: "nat \<Rightarrow> nat \<Rightarrow> bool" where
  "reaches_threshold count total_votes = (7 * total_votes \<le> 10 * count)"

definition inferColumnType :: "jsvalue list \<Rightarrow> field_type" where
  "inferColumnType values =
     (if values = [] then STRING
      else
        let typeCounts = foldl count_value no_counts values;
            total_votes = integer typeCounts + float typeCounts + boolean typeCounts
                        + date typeCounts + timestamp typeCounts + string typeCounts
        in if reaches_threshold (integer typeCounts) total_votes then INTEGER
           else if reaches_threshold (float typeCounts) total_votes then FLOAT
           else if reaches_threshold (boolean typeCounts) total_votes then BOOLEAN
           else if reaches_threshold (timestamp typeCounts) total_votes then TIMESTAMP
           else if reaches_threshold (date typeCounts) total_votes then DATE
           else STRING)"

section \<open>detectCSVSchema\<close>

text \<open>\<open>lines.slice(1, Math.min(11, lines.length)).map(line => parseCSVLine(line))\<close>\<close>

definition sampleRows :: "string list \<Rightarrow> string list list" where
  "sampleRows lines = map parseCSVLine (slice lines 1 (min 11 (length lines)))"

text \<open>The values of one column that pass the filter of the source.\<close>

definition columnValues :: "string list list \<Rightarrow> nat \<Rightarrow> jsvalue list" where
  "columnValues rows index =
     filter (\<lambda>val. val \<noteq> JNull \<and> val \<noteq> JUndefined \<and> val \<noteq> JString [])
       (map (\<lambda>row. at_index row index) rows)"

definition detectCSVSchema :: "string \<Rightarrow> string + SchemaField list" where
  "detectCSVSchema csvContent =
     (let lines = split_lines (trim csvContent) in
      if length lines < 2 then Inl ''CSV must have at least a header and one data row''
      else
        let headers = parseCSVLine (lines ! 0) in
        Inr (map (\<lambda>(index, header).
               \<lparr>name = sanitizeFieldName header,
                type = inferColumnType (columnValues (sampleRows lines) index),
                mode = (if length (columnValues (sampleRows lines) index)
                           = length (sampleRows lines)
                        then REQUIRED else NULLABLE)\<rparr>)
             (enumerate 0 headers)))"

section \<open>Numbers\<close>

text \<open>
  A number of the source is an IEEE 754 double. The model holds a finite double by its exact
  value, a rational; \<open>NaN\<close> is \<open>None\<close> where a function can return it. \<open>round_magnitude\<close>
  is the Number value of a magnitude that is not negative: the double nearest to it, the one
  with the even significand on a tie, and \<open>Infinity\<close> when that rounding reaches
  \<open>2^1024\<close>. \<open>binary_exponent q\<close> is the exponent of the leading binary digit of \<open>q\<close>,
  taken not below -1022 (subnormal doubles), so that the unit in the last of the 53 digits of
  the significand is \<open>2\<close> to the power of that exponent less 52. ECMAScript lets
  \<open>parseInt\<close> and \<open>parseFloat\<close> ignore the digits after the 20th; the model takes the
  correctly rounded value, as the engine that runs the source does.
\<close>

datatype jsnumber = Finite rat | Negative_zero | Infinity | Minus_Infinity

function bit_length :: "nat \<Rightarrow> nat" where
  "bit_length n = (if n = 0 then 0 else Suc (bit_length (n div 2)))"
  by pat_completeness auto
termination
  by (relation "measure id") auto

declare bit_length.simps [simp del]

definition binary_exponent :: "rat \<Rightarrow> int" where
  "binary_exponent q =
     (let (a, b) = quotient_of q;
          d = int (bit_length (nat a)) - int (bit_length (nat b))
      in if 2 powi d \<le> q then d else d - 1)"

definition round_half_even :: "rat \<Rightarrow> int" where
  "round_half_even m =
     (let f = \<lfloor>m\<rfloor>; r = m - of_int f
      in if r < 1 / 2 then f
         else if 1 / 2 < r then f + 1
         else if even f then f else f + 1)"

definition round_magnitude :: "rat \<Rightarrow> jsnumber" where
  "round_magnitude q =
     (if q = 0 then Finite 0
      else
        let e = max (binary_exponent q) (- 1022);
            ulp = 2 powi (e - 52);
            x = of_int (round_half_even (q / ulp)) * ulp
        in if 2 ^ 1024 \<le> x then Infinity else Finite x)"

fun negate :: "jsnumber \<Rightarrow> jsnumber" where
  "negate (Finite x) = (if x = 0 then Negative_zero else Finite (- x))"
| "negate Negative_zero = Finite 0"
| "negate Infinity = Minus_Infinity"
| "negate Minus_Infinity = Infinity"

text \<open>The Number value of a sign and a magnitude; a negative zero keeps its sign.\<close>

definition Number_value :: "bool \<Rightarrow> rat \<Rightarrow> jsnumber" where
  "Number_value negative magnitude =
     (if negative then negate (round_magnitude magnitude) else round_magnitude magnitude)"

section \<open>convertValue\<close>

text \<open>A converted value is \<open>null\<close>, a boolean, a number or a string.\<close>

datatype converted = CNull | CBoolean bool | CNumber jsnumber | CString string

definition digit_value :: "char \<Rightarrow> nat" where
  "digit_value c = of_char c - 48"

definition decimal_value :: "string \<Rightarrow> nat" where
  "decimal_value ds = foldl (\<lambda>n c. 10 * n + digit_value c) 0 ds"

text \<open>
  \<open>parseInt(s, 10)\<close>: leading white space, a sign, then the longest run of digits;
  \<open>None\<close> is \<open>NaN\<close>. The result is the Number value of the sign and the integer that
  the digits denote.
\<close>

definition parseInt :: "string \<Rightarrow> jsnumber option" where
  "parseInt s =
     (let t = dropWhile is_white_space s;
          negative = (take 1 t = ''-'');
          body = (if take 1 t = ''-'' \<or> take 1 t = ''+'' then drop 1 t else t);
          ds = takeWhile is_digit body
      in if ds = [] then None
         else Some (Number_value negative (of_nat (decimal_value ds))))"

text \<open>
  \<open>parseFloat(s)\<close> on decimal literals with a sign, digits and a fraction; \<open>None\<close> is
  \<open>NaN\<close>. The result is the Number value of the sign and the decimal that the digits
  denote. Exponents and \<open>Infinity\<close> are left out: \<open>convertValue\<close> calls
  \<open>parseFloat\<close> only on a string that matches \<open>float_pattern\<close>, which has neither.
\<close>

definition parseFloat :: "string \<Rightarrow> jsnumber option" where
  "parseFloat s =
     (let t = dropWhile is_white_space s;
          negative = (take 1 t = ''-'');
          body = (if take 1 t = ''-'' \<or> take 1 t = ''+'' then drop 1 t else t);
          whole = takeWhile is_digit body;
          after = dropWhile is_digit body;
          frac = (if take 1 after = ''.'' then takeWhile is_digit (drop 1 after) else [])
      in if whole = [] \<and> frac = [] then None
         else Some (Number_value negative
                 (of_nat (decimal_value whole)
                  + of_nat (decimal_value frac) / of_nat (10 ^ length frac))))"

definition convertValue :: "jsvalue \<Rightarrow> converted" where
  "convertValue v =
     (if v = JNull \<or> v = JUndefined then CNull
      else
        let strValue = trim (String v) in
        if strValue = [] \<or> toLowerCase strValue = ''null'' then CNull
        else
          let lowerStr = toLowerCase strValue in
          if lowerStr \<in> set [''true'', ''yes'', ''y'', ''1''] then CBoolean True
          else if lowerStr \<in> set [''false'', ''no'', ''n'', ''0''] then CBoolean False
          else
            (case (if regex_match True integer_pattern strValue
                   then parseInt strValue else None) of
               Some intValue \<Rightarrow> CNumber intValue
             | None \<Rightarrow>
                (case (if regex_match True float_pattern strValue
                       then parseFloat strValue else None) of
                   Some floatValue \<Rightarrow> CNumber floatValue
                 | None \<Rightarrow> CString strValue)))"

section \<open>parseCSV\<close>

text \<open>
  A converted row is an object with one property for each field name; assigning to a name
  that is already there replaces its value.
\<close>

type_synonym row = "(string \<times> converted) list"

text \<open>The callback of \<open>headers.forEach((header, index) => ...)\<close>: it sets one field.\<close>

definition set_field :: "string list \<Rightarrow> row \<Rightarrow> nat \<times> string \<Rightarrow> row" where
  "set_field values row = (\<lambda>(index, header).
     let v = at_index values index;
         fieldName = sanitizeFieldName header
     in if v = JNull \<or> v = JUndefined \<or> trim (String v) = []
        then AList.update fieldName CNull row
        else AList.update fieldName (convertValue v) row)"

definition csv_row :: "string list \<Rightarrow> string list \<Rightarrow> row" where
  "csv_row headers values = foldl (set_field values) [] (enumerate 0 headers)"

text \<open>The \<open>for\<close> loop over the lines after the header: \<open>continue\<close> on a mismatch.\<close>

fun parseCSV_rows :: "string list \<Rightarrow> string list \<Rightarrow> row list" where
  "parseCSV_rows headers [] = []"
| "parseCSV_rows headers (line # rest) =
     (let values = parseCSVLine line in
      if length values \<noteq> length headers then parseCSV_rows headers rest
      else csv_row headers values # parseCSV_rows headers rest)"

definition parseCSV :: "string \<Rightarrow> string + row list" where
  "parseCSV csvContent =
     (let lines = split_lines (trim csvContent) in
      if length lines < 2 then Inl ''CSV must have at least a header and one data row''
      else Inr (parseCSV_rows (parseCSVLine (lines ! 0)) (drop 1 lines)))"

section \<open>parseJSON\<close>

text \<open>
  A parsed document is a scalar, an object or an array; an element of the array is again a
  scalar, an object or an array. The values of a record are scalars, as the flat records of
  the input format are. An error is the message of the thrown \<open>Error\<close>.
\<close>

datatype json = Primitive jsvalue | Object "(string \<times> jsvalue) list" | Array "jsvalue list"

datatype document = Top_value jsvalue | Top_object "(string \<times> jsvalue) list" | Top_array "json list"

text \<open>The keys of an array are its indices in decimal.\<close>

function index_key :: "nat \<Rightarrow> string" where
  "index_key n = (if n < 10 then [''0123456789'' ! n]
                  else index_key (n div 10) @ [''0123456789'' ! (n mod 10)])"
  by pat_completeness auto
termination
  by (relation "measure id") auto

text \<open>\<open>Object.keys(record).forEach(key => ...)\<close>, starting from the empty record.\<close>

definition clean_entries :: "(string \<times> jsvalue) list \<Rightarrow> row" where
  "clean_entries entries =
     foldl (\<lambda>cleanRecord (key, v).
              AList.update (sanitizeFieldName key) (convertValue v) cleanRecord)
       [] entries"

text \<open>
  The function given to \<open>records.map\<close>. It throws when
  \<open>typeof record !== 'object' || record === null\<close>; the \<open>typeof\<close> of an array is
  \<open>'object'\<close>.
\<close>

fun clean_record :: "json \<Rightarrow> string + row" where
  "clean_record (Primitive v) = Inl ''Each record must be an object''"
| "clean_record (Object entries) = Inr (clean_entries entries)"
| "clean_record (Array items) =
     Inr (clean_entries (map (\<lambda>(index, v). (index_key index, v)) (enumerate 0 items)))"

fun map_records :: "json list \<Rightarrow> string + row list" where
  "map_records [] = Inr []"
| "map_records (record # rest) =
     (case clean_record record of
        Inl message \<Rightarrow> Inl message
      | Inr cleanRecord \<Rightarrow>
         (case map_records rest of
            Inl message \<Rightarrow> Inl message
          | Inr rows \<Rightarrow> Inr (cleanRecord # rows)))"

text \<open>
  \<open>JSON.parse\<close> is a parameter: the parsed document, or the message of its
  \<open>SyntaxError\<close>. The \<open>catch\<close> wraps every message.
\<close>

definition parseJSON :: "(string \<Rightarrow> string + document) \<Rightarrow> string \<Rightarrow> string + row list" where
  "parseJSON JSON_parse jsonContent =
     (case (case JSON_parse jsonContent of
              Inl message \<Rightarrow> Inl message
            | Inr (Top_array items) \<Rightarrow> map_records items
            | Inr (Top_object entries) \<Rightarrow> map_records [Object entries]
            | Inr (Top_value v) \<Rightarrow> Inl ''JSON must be an object or array of objects'') of
        Inl message \<Rightarrow> Inl (''Invalid JSON format: '' @ message)
      | Inr rows \<Rightarrow> Inr rows)"

section \<open>POST of the insert route\<close>

text \<open>
  The warehouse is a parameter: a state \<open>'s\<close> and the three calls the handler awaits, each
  resolving or rejecting with a message. \<open>delete_all\<close> is the pair of awaits of the
  \<open>DELETE\<close> query (\<open>createQueryJob\<close>, \<open>getQueryResults\<close>): a rejection of either
  reaches the same \<open>catch\<close>. The handler returns its response, the calls it made in
  order, and the final state.
\<close>

datatype 'a outcome = Resolved 'a | Rejected string

record 's warehouse =
  table_exists :: "string \<Rightarrow> string \<Rightarrow> 's \<Rightarrow> bool outcome \<times> 's"
  delete_all :: "string \<Rightarrow> string \<Rightarrow> 's \<Rightarrow> unit outcome \<times> 's"
  table_insert :: "string \<Rightarrow> string \<Rightarrow> row list \<Rightarrow> 's \<Rightarrow> unit outcome \<times> 's"

datatype call = Exists_call | Delete_call bool | Insert_call "row list" bool

text \<open>The body of the success response; \<open>table_ref\<close> and \<open>write_mode\<close> are its
  \<open>tableId\<close> and \<open>mode\<close>.\<close>

record summary =
  success :: bool
  rowsInserted :: nat
  totalRows :: nat
  table_ref :: string
  write_mode :: string

datatype response = Error_response nat string | Ok_response summary

definition batchSize :: nat where
  "batchSize = 1000"

text \<open>\<open>for (let i = 0; i < rows.length; i += batchSize)\<close>\<close>

function insert_batches ::
  "'s warehouse \<Rightarrow> string \<Rightarrow> string \<Rightarrow> row list \<Rightarrow> nat \<Rightarrow> nat \<Rightarrow> call list \<Rightarrow> 's
     \<Rightarrow> nat \<times> call list \<times> 's" where
  "insert_batches w datasetId tableId rows i totalInserted calls s =
     (if i < length rows then
        let batch = slice rows i (i + batchSize) in
        (case table_insert w datasetId tableId batch s of
           (Resolved u, s') \<Rightarrow>
             insert_batches w datasetId tableId rows (i + batchSize)
               (totalInserted + length batch) (calls @ [Insert_call batch True]) s'
         | (Rejected insertError, s') \<Rightarrow>
             insert_batches w datasetId tableId rows (i + batchSize)
               totalInserted (calls @ [Insert_call batch False]) s')
      else (totalInserted, calls, s))"
  by pat_completeness auto
termination
  by (relation "measure (\<lambda>(w, datasetId, tableId, rows, i, rest). length rows - i)")
     (auto simp: batchSize_def)

declare insert_batches.simps [simp del]

text \<open>
  The fields of the request are strings (a missing field is the empty string, falsy as
  well); \<open>mode\<close> may be absent and then defaults to \<open>append\<close>. An exception that
  reaches the outer \<open>catch\<close> gives status 500.
\<close>

definition POST ::
  "'s warehouse \<Rightarrow> (string \<Rightarrow> string + document) \<Rightarrow> 's
     \<Rightarrow> string \<Rightarrow> string \<Rightarrow> string \<Rightarrow> string \<Rightarrow> string option
     \<Rightarrow> response \<times> call list \<times> 's" where
  "POST w JSON_parse s datasetId tableId content data_type requested_mode =
     (let mode = (case requested_mode of None \<Rightarrow> ''append'' | Some m \<Rightarrow> m) in
      if datasetId = [] \<or> tableId = [] \<or> content = [] \<or> data_type = []
      then (Error_response 400 ''datasetId, tableId, content, and type are required'', [], s)
      else if data_type \<noteq> ''csv'' \<and> data_type \<noteq> ''json''
      then (Error_response 400 ''Unsupported data type'', [], s)
      else
        (case (if data_type = ''csv'' then parseCSV content
               else parseJSON JSON_parse content) of
           Inl message \<Rightarrow> (Error_response 500 (''Failed to insert data: '' @ message), [], s)
         | Inr rows \<Rightarrow>
            if length rows = 0
            then (Error_response 400 ''No data rows found to insert'', [], s)
            else
              (case table_exists w datasetId tableId s of
                 (Rejected message, s1) \<Rightarrow>
                   (Error_response 500 (''Failed to insert data: '' @ message),
                    [Exists_call], s1)
               | (Resolved tableExists, s1) \<Rightarrow>
                  if \<not> tableExists
                  then (Error_response 404
                          (''Table '' @ datasetId @ ''.'' @ tableId @ '' does not exist''),
                        [Exists_call], s1)
                  else
                    let (calls, s2) =
                          (if mode = ''replace''
                           then (case delete_all w datasetId tableId s1 of
                                   (Resolved u, s') \<Rightarrow>
                                     ([Exists_call, Delete_call True], s')
                                 | (Rejected deleteError, s') \<Rightarrow>
                                     ([Exists_call, Delete_call False], s'))
                           else ([Exists_call], s1));
                        (totalInserted, calls', s3) =
                          insert_batches w datasetId tableId rows 0 0 calls s2
                    in (Ok_response \<lparr>success = True, rowsInserted = totalInserted,
                          totalRows = length rows, table_ref = datasetId @ ''.'' @ tableId,
                          write_mode = mode\<rparr>, calls', s3))))"

section \<open>Definitions for the properties\<close>

text \<open>\<^verbatim>\<open>/^[a-zA-Z_][a-zA-Z0-9_]*$/\<close>, the shape of a valid field name.\<close>

definition identifier_pattern :: "quantified list" where
  "identifier_pattern =
     [Rep (\<lambda>c. is_ascii_letter c \<or> c = CHR ''_'') 1 (Some 1), Rep is_word_char 0 None]"

definition valid_identifier :: "string \<Rightarrow> bool" where
  "valid_identifier s = regex_match True identifier_pattern s"

text \<open>
  What every result of \<open>sanitizeFieldName\<close> satisfies: it is not empty, its characters are
  lower-case ASCII letters, digits and underscores, it neither starts nor ends with an
  underscore, and no two underscores are adjacent.
\<close>

definition is_clean_char :: "char \<Rightarrow> bool" where
  "is_clean_char c = (let n = (of_char c :: nat) in
     (97 \<le> n \<and> n \<le> 122) \<or> (48 \<le> n \<and> n \<le> 57) \<or> c = CHR ''_'')"

fun no_double_underscore :: "string \<Rightarrow> bool" where
  "no_double_underscore (c # d # cs) =
     (\<not> (c = CHR ''_'' \<and> d = CHR ''_'') \<and> no_double_underscore (d # cs))"
| "no_double_underscore cs = True"

definition clean_name :: "string \<Rightarrow> bool" where
  "clean_name r = (r \<noteq> [] \<and> list_all is_clean_char r \<and> hd r \<noteq> CHR ''_''
     \<and> last r \<noteq> CHR ''_'' \<and> no_double_underscore r)"

text \<open>
  The classifier as the specification words it: the vote of one value, by the tests in their
  order (\<open>None\<close> for a value that is skipped), the number of votes of each kind and of
  counted values in a column, and the first type in the order INTEGER, FLOAT, BOOLEAN,
  TIMESTAMP, DATE whose votes are at least 70% of the counted values.
\<close>

datatype vote = Boolean_vote | Integer_vote | Float_vote | Timestamp_vote | Date_vote | String_vote

definition spec_vote :: "jsvalue \<Rightarrow> vote option" where
  "spec_vote v =
     (let t = trim (String v) in
      if t = [] \<or> toLowerCase t = ''null'' then None
      else if toLowerCase t \<in> {''true'', ''false'', ''1'', ''0'', ''yes'', ''no'', ''y'', ''n''}
        then Some Boolean_vote
      else if regex_match True integer_pattern t then Some Integer_vote
      else if regex_match True float_pattern t then Some Float_vote
      else if regex_match False timestamp_pattern t then Some Timestamp_vote
      else if regex_match True iso_date_pattern t \<or> regex_match True slash_date_pattern t
        then Some Date_vote
      else Some String_vote)"

definition votes :: "vote \<Rightarrow> jsvalue list \<Rightarrow> nat" where
  "votes k values = length (filter (\<lambda>v. spec_vote v = Some k) values)"

definition counted :: "jsvalue list \<Rightarrow> nat" where
  "counted values = length (filter (\<lambda>v. spec_vote v \<noteq> None) values)"

definition spec_classify :: "jsvalue list \<Rightarrow> field_type" where
  "spec_classify values =
     (if values = [] then STRING
      else case find (\<lambda>(k, t). 7 * counted values \<le> 10 * votes k values)
                  [(Integer_vote, INTEGER), (Float_vote, FLOAT), (Boolean_vote, BOOLEAN),
                   (Timestamp_vote, TIMESTAMP), (Date_vote, DATE)] of
             Some (k, t) \<Rightarrow> t
           | None \<Rightarrow> STRING)"

definition add_vote :: "typeCounts \<Rightarrow> vote option \<Rightarrow> typeCounts" where
  "add_vote tc k = (case k of
       None \<Rightarrow> tc
     | Some Boolean_vote \<Rightarrow> tc\<lparr>boolean := boolean tc + 1\<rparr>
     | Some Integer_vote \<Rightarrow> tc\<lparr>integer := integer tc + 1\<rparr>
     | Some Float_vote \<Rightarrow> tc\<lparr>float := float tc + 1\<rparr>
     | Some Timestamp_vote \<Rightarrow> tc\<lparr>timestamp := timestamp tc + 1\<rparr>
     | Some Date_vote \<Rightarrow> tc\<lparr>date := date tc + 1\<rparr>
     | Some String_vote \<Rightarrow> tc\<lparr>string := string tc + 1\<rparr>)"

lemmas infer_defs = inferColumnType_def count_value_def no_counts_def reaches_threshold_def
  lit_def optional_def digits_def digits1_def integer_pattern_def
  float_pattern_def timestamp_pattern_def iso_date_pattern_def slash_date_pattern_def is_digit_def
  toLowerCase_def trim_def drop_trailing_def lower_char_def is_upper_def is_white_space_def

lemmas convert_defs = convertValue_def parseInt_def parseFloat_def decimal_value_def digit_value_def

text \<open>
  The load as the specification words it. \<open>batches_of n xs\<close> is \<open>xs\<close> cut, in order, into
  consecutive batches of \<open>n\<close> elements, the last one shorter when the length is not a
  multiple. \<open>submit\<close> gives the batches to \<open>table_insert\<close> one after the other, each
  from the state the one before left, whether that one was inserted or rejected, and
  returns which were inserted and the final state. \<open>inserted_rows\<close> is the sum of the
  sizes of the batches that were inserted.
\<close>

function batches_of :: "nat \<Rightarrow> 'a list \<Rightarrow> 'a list list" where
  "batches_of limit rows =
     (if rows = [] \<or> limit = 0 then []
      else take limit rows # batches_of limit (drop limit rows))"
  by pat_completeness auto
termination
  by (relation "measure (\<lambda>(limit, rows). length rows)") auto

declare batches_of.simps [simp del]

fun submit :: "'s warehouse \<Rightarrow> string \<Rightarrow> string \<Rightarrow> row list list \<Rightarrow> 's \<Rightarrow> bool list \<times> 's" where
  "submit w datasetId tableId [] s = ([], s)"
| "submit w datasetId tableId (batch # rest) s =
     (case table_insert w datasetId tableId batch s of
        (result, s1) \<Rightarrow>
          (case submit w datasetId tableId rest s1 of
             (oks, s2) \<Rightarrow>
               ((case result of Resolved u \<Rightarrow> True | Rejected message \<Rightarrow> False) # oks, s2)))"

definition inserted_rows :: "row list list \<Rightarrow> bool list \<Rightarrow> nat" where
  "inserted_rows batches oks =
     sum_list (map (\<lambda>(batch, ok). if ok then length batch else 0) (zip batches oks))"

text \<open>
  A warehouse for the examples. Its state is the number of delete and insert calls it has
  received and the rows it has stored. The table exists; every delete query is rejected;
  an insert is rejected when the number of earlier calls is even and stores its batch when
  that number is odd. And a parser that gives an array of 1500 empty objects.
\<close>

definition flaky_warehouse :: "(nat \<times> row list) warehouse" where
  "flaky_warehouse =
     \<lparr>table_exists = (\<lambda>datasetId tableId state. (Resolved True, state)),
      delete_all = (\<lambda>datasetId tableId (n, stored).
         (Rejected ''quota exceeded'', (Suc n, stored))),
      table_insert = (\<lambda>datasetId tableId batch (n, stored).
         if even n then (Rejected ''stream closed'', (Suc n, stored))
         else (Resolved (), (Suc n, stored @ batch)))\<rparr>"

definition many_records :: "string \<Rightarrow> string + document" where
  "many_records text = Inr (Top_array (replicate 1500 (Object [])))"

lemmas csv_defs = detectCSVSchema_def sampleRows_def columnValues_def parseCSVLine_def
  slice_def at_index_def

lemmas json_defs = parseJSON_def clean_entries_def

lemmas sanitize_defs = sanitizeFieldName_def or_default_def strip_underscores_def
  prefix_non_letter_def replace_non_word_def toLowerCase_def trim_def drop_trailing_def
  lower_char_def is_upper_def is_white_space_def is_word_char_def is_ascii_letter_def
  is_digit_def

section \<open>Properties of sanitizeFieldName\<close>

lemma of_char_lower: "is_upper c \<Longrightarrow> (of_char (lower_char c) :: nat) = of_char c + 32"
proof (cases c)
  case (Char b0 b1 b2 b3 b4 b5 b6 b7)
  assume u: "is_upper c"
  have "\<not> b5" using u Char
    by (cases b0; cases b1; cases b2; cases b3; cases b4; cases b5; cases b6; cases b7;
        simp add: is_upper_def)
  then show ?thesis using u Char by (simp add: lower_char_def)
qed

lemma clean_after_replace:
  "is_clean_char (if is_word_char (lower_char c) then lower_char c else CHR ''_'')"
proof (cases "is_upper c")
  case True
  from of_char_lower [OF True] True show ?thesis
    by (auto simp: is_clean_char_def is_word_char_def is_ascii_letter_def is_digit_def
        is_upper_def Let_def)
next
  case False
  then have "lower_char c = c" by (simp add: lower_char_def)
  with False show ?thesis
    by (auto simp: is_clean_char_def is_word_char_def is_ascii_letter_def is_digit_def
        is_upper_def Let_def)
qed

lemma clean_char_fixed:
  assumes "is_clean_char c"
  shows "\<not> is_white_space c" and "lower_char c = c" and "is_word_char c"
    and "is_ascii_letter c \<or> c = CHR ''_'' \<or> is_digit c"
proof -
  have n: "(97 \<le> (of_char c :: nat) \<and> (of_char c :: nat) \<le> 122)
      \<or> (48 \<le> (of_char c :: nat) \<and> (of_char c :: nat) \<le> 57) \<or> (of_char c :: nat) = 95"
    using assms by (auto simp: is_clean_char_def Let_def)
  show "\<not> is_white_space c" using n by (auto simp: is_white_space_def)
  have "\<not> is_upper c" using n by (auto simp: is_upper_def Let_def)
  then show "lower_char c = c" by (simp add: lower_char_def)
  show "is_word_char c" using assms
    by (auto simp: is_clean_char_def is_word_char_def is_ascii_letter_def is_digit_def Let_def)
  then show "is_ascii_letter c \<or> c = CHR ''_'' \<or> is_digit c"
    by (auto simp: is_word_char_def)
qed

lemma drop_trailing_decomp: "\<exists>v. s = drop_trailing P s @ v"
proof -
  have "rev (rev s) = rev (takeWhile P (rev s) @ dropWhile P (rev s))"
    by (simp only: takeWhile_dropWhile_id)
  then have "s = rev (dropWhile P (rev s)) @ rev (takeWhile P (rev s))"
    by (simp only: rev_append rev_rev_ident)
  then show ?thesis unfolding drop_trailing_def by blast
qed

lemma drop_trailing_last:
  "drop_trailing P s \<noteq> [] \<Longrightarrow> \<not> P (last (drop_trailing P s))"
  by (simp add: drop_trailing_def last_rev hd_dropWhile)

lemma drop_trailing_id: "s \<noteq> [] \<Longrightarrow> \<not> P (last s) \<Longrightarrow> drop_trailing P s = s"
  by (cases s rule: rev_cases) (simp_all add: drop_trailing_def)

lemma drop_trailing_hd:
  "drop_trailing P s \<noteq> [] \<Longrightarrow> hd (drop_trailing P s) = hd s"
  using drop_trailing_decomp [of s P] by (metis hd_append2)

lemma set_drop_trailing: "set (drop_trailing P s) \<subseteq> set s"
  by (auto simp: drop_trailing_def dest: set_dropWhileD)

lemma no_double_append: "no_double_underscore (u @ v) \<Longrightarrow> no_double_underscore u"
  by (induction u rule: no_double_underscore.induct) auto

lemma no_double_dropWhile: "no_double_underscore s \<Longrightarrow> no_double_underscore (dropWhile P s)"
  by (induction s rule: no_double_underscore.induct) auto

lemma no_double_drop_trailing:
  "no_double_underscore s \<Longrightarrow> no_double_underscore (drop_trailing P s)"
  using drop_trailing_decomp [of s P] no_double_append by metis


lemma collapse_Nil_iff: "collapse_underscores s = [] \<longleftrightarrow> s = []"
  by (cases s) simp_all

lemma hd_collapse: "hd (collapse_underscores s) = hd s"
  by (cases s) simp_all

lemma set_collapse: "set (collapse_underscores s) \<subseteq> set s"
proof (induction s rule: collapse_underscores.induct)
  case 1
  show ?case by simp
next
  case (2 c cs)
  let ?r = "dropWhile (\<lambda>d. d = CHR ''_'') cs"
  have sub: "set ?r \<subseteq> set cs" by (auto dest: set_dropWhileD)
  show ?case
  proof (cases "c = CHR ''_'' \<and> take 1 cs = ''_''")
    case True
    then have "set (collapse_underscores ?r) \<subseteq> set ?r" using 2(1) by simp
    moreover have "collapse_underscores (c # cs) = c # collapse_underscores ?r"
      using True by simp
    ultimately show ?thesis using sub by auto
  next
    case False
    then have "set (collapse_underscores cs) \<subseteq> set cs" using 2(2) by simp
    moreover have "collapse_underscores (c # cs) = c # collapse_underscores cs"
      using False by auto
    ultimately show ?thesis by auto
  qed
qed

lemma no_double_cons:
  "no_double_underscore s \<Longrightarrow> s = [] \<or> c \<noteq> CHR ''_'' \<or> hd s \<noteq> CHR ''_''
     \<Longrightarrow> no_double_underscore (c # s)"
  by (cases s) auto

lemma collapse_no_double: "no_double_underscore (collapse_underscores s)"
proof (induction s rule: collapse_underscores.induct)
  case 1
  show ?case by simp
next
  case (2 c cs)
  let ?r = "dropWhile (\<lambda>d. d = CHR ''_'') cs"
  show ?case
  proof (cases "c = CHR ''_'' \<and> take 1 cs = ''_''")
    case True
    have ih: "no_double_underscore (collapse_underscores ?r)" using 2(1) True by simp
    have "?r = [] \<or> hd ?r \<noteq> CHR ''_''" using hd_dropWhile [of "\<lambda>d. d = CHR ''_''" cs] by blast
    then have "collapse_underscores ?r = [] \<or> hd (collapse_underscores ?r) \<noteq> CHR ''_''"
      by (simp only: collapse_Nil_iff hd_collapse)
    then have "no_double_underscore (c # collapse_underscores ?r)"
      using ih no_double_cons by blast
    moreover have "collapse_underscores (c # cs) = c # collapse_underscores ?r"
      using True by simp
    ultimately show ?thesis by (simp only:)
  next
    case False
    have eq: "collapse_underscores (c # cs) = c # collapse_underscores cs" using False by auto
    have ih: "no_double_underscore (collapse_underscores cs)" using 2(2) False by simp
    have "cs = [] \<or> c \<noteq> CHR ''_'' \<or> hd cs \<noteq> CHR ''_''"
      using False by (cases cs) auto
    then have "collapse_underscores cs = [] \<or> c \<noteq> CHR ''_'' \<or> hd (collapse_underscores cs) \<noteq> CHR ''_''"
      by (simp only: collapse_Nil_iff hd_collapse)
    then have "no_double_underscore (c # collapse_underscores cs)"
      using ih no_double_cons by blast
    then show ?thesis by (simp only: eq)
  qed
qed


lemma collapse_id: "no_double_underscore s \<Longrightarrow> collapse_underscores s = s"
  by (induction s rule: no_double_underscore.induct) auto

lemma strip_both_id:
  "s \<noteq> [] \<Longrightarrow> \<not> P (hd s) \<Longrightarrow> \<not> P (last s) \<Longrightarrow> drop_trailing P (dropWhile P s) = s"
proof -
  assume a: "s \<noteq> []" "\<not> P (hd s)" "\<not> P (last s)"
  then have "dropWhile P s = s" by (cases s) auto
  then show ?thesis using a by (simp add: drop_trailing_id)
qed

lemma strip_both_ends:
  assumes "drop_trailing P (dropWhile P s) \<noteq> []"
  shows "\<not> P (hd (drop_trailing P (dropWhile P s)))"
    and "\<not> P (last (drop_trailing P (dropWhile P s)))"
proof -
  let ?a = "dropWhile P s"
  have ne: "?a \<noteq> []"
  proof
    assume e: "?a = []"
    have "drop_trailing P ?a = []" unfolding e by (simp add: drop_trailing_def)
    with assms show False by simp
  qed
  have "hd (drop_trailing P ?a) = hd ?a" using assms by (rule drop_trailing_hd)
  moreover have "\<not> P (hd ?a)" using ne hd_dropWhile by blast
  ultimately show "\<not> P (hd (drop_trailing P ?a))" by simp
  show "\<not> P (last (drop_trailing P ?a))" using assms by (rule drop_trailing_last)
qed

lemma list_all_strip:
  "list_all Q s \<Longrightarrow> list_all Q (drop_trailing P (dropWhile P s))"
proof -
  assume q: "list_all Q s"
  have "set (drop_trailing P (dropWhile P s)) \<subseteq> set s"
    using set_drop_trailing [of P "dropWhile P s"] by (auto dest: set_dropWhileD)
  with q show ?thesis by (auto simp: list_all_iff)
qed

lemma clean_pipeline:
  "list_all is_clean_char (prefix_non_letter (replace_non_word (toLowerCase s)))"
proof -
  have "list_all is_clean_char (replace_non_word (toLowerCase s))"
    by (induction s) (simp_all add: replace_non_word_def toLowerCase_def clean_after_replace)
  moreover have "is_clean_char (CHR ''_'')" by (simp add: is_clean_char_def)
  ultimately show ?thesis by (simp add: prefix_non_letter_def split: list.splits)
qed

lemma clean_name_fallback: "clean_name ''unnamed_field''"
  by (simp add: clean_name_def is_clean_char_def)

lemma sanitize_clean: "clean_name (sanitizeFieldName x)"
proof -
  let ?p = "prefix_non_letter (replace_non_word (toLowerCase (trim x)))"
  let ?c = "collapse_underscores ?p"
  let ?r = "strip_underscores ?c"
  show ?thesis
  proof (cases "?r = []")
    case True
    then show ?thesis by (simp add: sanitizeFieldName_def or_default_def clean_name_fallback)
  next
    case False
    have "list_all is_clean_char ?c"
      using clean_pipeline [of "trim x"] set_collapse [of ?p] by (auto simp: list_all_iff)
    then have 1: "list_all is_clean_char ?r"
      unfolding strip_underscores_def by (rule list_all_strip)
    have 2: "hd ?r \<noteq> CHR ''_''" "last ?r \<noteq> CHR ''_''"
      using False strip_both_ends [of "\<lambda>c. c = CHR ''_''" ?c]
      unfolding strip_underscores_def by blast+
    have 3: "no_double_underscore ?r"
      unfolding strip_underscores_def
      by (intro no_double_drop_trailing no_double_dropWhile collapse_no_double)
    from False 1 2 3 show ?thesis
      by (simp add: sanitizeFieldName_def or_default_def clean_name_def)
  qed
qed

lemma clean_fixed:
  assumes "clean_name r"
  shows "sanitizeFieldName r = r"
proof -
  from assms have ne: "r \<noteq> []" and all: "list_all is_clean_char r"
    and h: "hd r \<noteq> CHR ''_''" and l: "last r \<noteq> CHR ''_''" and nd: "no_double_underscore r"
    by (simp_all add: clean_name_def)
  have ch: "is_clean_char (hd r)" "is_clean_char (last r)"
    using ne all by (auto simp: list_all_iff)
  have t: "trim r = r"
    unfolding trim_def using ne ch by (intro strip_both_id) (auto dest: clean_char_fixed(1))
  have lw: "toLowerCase r = r"
    unfolding toLowerCase_def using all by (intro map_idI) (auto simp: list_all_iff clean_char_fixed(2))
  have rp: "replace_non_word r = r"
    unfolding replace_non_word_def using all
    by (intro map_idI) (auto simp: list_all_iff clean_char_fixed(3))
  have pf: "prefix_non_letter r = r \<or> prefix_non_letter r = CHR ''_'' # r"
    by (simp add: prefix_non_letter_def split: list.splits)
  have c1: "collapse_underscores r = r" using nd by (rule collapse_id)
  have "no_double_underscore (CHR ''_'' # r)" using nd h by (intro no_double_cons) auto
  then have c2: "collapse_underscores (CHR ''_'' # r) = CHR ''_'' # r" by (rule collapse_id)
  have s1: "strip_underscores r = r"
    unfolding strip_underscores_def using ne h l by (intro strip_both_id) auto
  have "dropWhile (\<lambda>c. c = CHR ''_'') (CHR ''_'' # r) = dropWhile (\<lambda>c. c = CHR ''_'') r" by simp
  then have s2: "strip_underscores (CHR ''_'' # r) = r"
    using s1 by (simp only: strip_underscores_def)
  have "strip_underscores (collapse_underscores (prefix_non_letter r)) = r"
    using pf c1 c2 s1 s2 by auto
  then show ?thesis using ne by (simp add: sanitizeFieldName_def or_default_def t lw rp)
qed

text \<open>
  Claim C1. The claim: for every input, \<open>sanitizeFieldName\<close> returns a string that
  matches \<^verbatim>\<open>^[a-zA-Z_][a-zA-Z0-9_]*$\<close> or is the fallback, so the result never
  starts with a character other than a letter or an underscore. The code breaks it on a
  name with a leading digit: the underscore that the second \<open>replace\<close> puts in front of
  the digit is removed again by the last \<open>replace\<close>, which strips leading underscores.
  On \<open>1abc\<close> the result is \<open>1abc\<close>: not a valid identifier, and not the fallback.
\<close>

theorem sanitizeFieldName_leading_digit:
  "sanitizeFieldName ''1abc'' = ''1abc''
   \<and> valid_identifier (sanitizeFieldName ''1abc'') = False
   \<and> sanitizeFieldName ''1abc'' \<noteq> ''unnamed_field''"
  by (simp add: sanitize_defs valid_identifier_def identifier_pattern_def)

text \<open>
  Claim C9. \<open>sanitizeFieldName\<close> is idempotent: applying it to its own result changes
  nothing, for every input string.
\<close>

theorem sanitizeFieldName_idempotent:
  "sanitizeFieldName (sanitizeFieldName x) = sanitizeFieldName x"
  using sanitize_clean by (rule clean_fixed)

theorem sanitizeFieldName_idempotent_witness:
  "sanitizeFieldName (sanitizeFieldName ''  9 Lives -- of a Cat!  '') = ''9_lives_of_a_cat''"
proof -
  have "sanitizeFieldName ''  9 Lives -- of a Cat!  '' = ''9_lives_of_a_cat''"
    by (simp add: sanitize_defs)
  then show ?thesis
    using sanitizeFieldName_idempotent [of "''  9 Lives -- of a Cat!  ''"] by simp
qed

section \<open>Properties of inferColumnType and convertValue\<close>

lemma count_value_vote: "count_value tc v = add_vote tc (spec_vote v)"
  by (simp add: count_value_def spec_vote_def add_vote_def Let_def)

lemma votes_Cons:
  "votes k (v # vs) = (if spec_vote v = Some k then 1 else 0) + votes k vs"
  by (simp add: votes_def)

lemma counted_Cons:
  "counted (v # vs) = (if spec_vote v = None then 0 else 1) + counted vs"
  by (simp add: counted_def)

lemma count_value_fields:
  "integer (count_value tc v) = integer tc + (if spec_vote v = Some Integer_vote then 1 else 0)"
  "float (count_value tc v) = float tc + (if spec_vote v = Some Float_vote then 1 else 0)"
  "boolean (count_value tc v) = boolean tc + (if spec_vote v = Some Boolean_vote then 1 else 0)"
  "date (count_value tc v) = date tc + (if spec_vote v = Some Date_vote then 1 else 0)"
  "timestamp (count_value tc v)
     = timestamp tc + (if spec_vote v = Some Timestamp_vote then 1 else 0)"
  "string (count_value tc v) = string tc + (if spec_vote v = Some String_vote then 1 else 0)"
  unfolding count_value_vote add_vote_def
  by (simp_all split: option.splits vote.splits)

lemma foldl_count_value:
  "foldl count_value tc vs =
     \<lparr>integer = integer tc + votes Integer_vote vs,
      float = float tc + votes Float_vote vs,
      boolean = boolean tc + votes Boolean_vote vs,
      date = date tc + votes Date_vote vs,
      timestamp = timestamp tc + votes Timestamp_vote vs,
      string = string tc + votes String_vote vs\<rparr>"
proof (induction vs arbitrary: tc)
  case Nil
  show ?case by (simp add: votes_def)
next
  case (Cons v vs)
  have "foldl count_value tc (v # vs) = foldl count_value (count_value tc v) vs" by simp
  also have "\<dots> =
     \<lparr>integer = integer (count_value tc v) + votes Integer_vote vs,
      float = float (count_value tc v) + votes Float_vote vs,
      boolean = boolean (count_value tc v) + votes Boolean_vote vs,
      date = date (count_value tc v) + votes Date_vote vs,
      timestamp = timestamp (count_value tc v) + votes Timestamp_vote vs,
      string = string (count_value tc v) + votes String_vote vs\<rparr>"
    by (rule Cons)
  also have "\<dots> =
     \<lparr>integer = integer tc + votes Integer_vote (v # vs),
      float = float tc + votes Float_vote (v # vs),
      boolean = boolean tc + votes Boolean_vote (v # vs),
      date = date tc + votes Date_vote (v # vs),
      timestamp = timestamp tc + votes Timestamp_vote (v # vs),
      string = string tc + votes String_vote (v # vs)\<rparr>"
    by (simp only: count_value_fields votes_Cons add.assoc)
  finally show ?case .
qed

lemma counted_sum:
  "counted vs = votes Integer_vote vs + votes Float_vote vs
     + votes Boolean_vote vs + votes Date_vote vs + votes Timestamp_vote vs
     + votes String_vote vs"
proof (induction vs)
  case Nil
  show ?case by (simp add: counted_def votes_def)
next
  case (Cons v vs)
  show ?case
  proof (cases "spec_vote v")
    case None
    then show ?thesis using Cons by (simp add: counted_Cons votes_Cons)
  next
    case (Some k)
    then show ?thesis using Cons by (cases k) (simp_all add: counted_Cons votes_Cons)
  qed
qed

lemma inferColumnType_spec: "inferColumnType values = spec_classify values"
proof -
  let ?tc = "foldl count_value no_counts values"
  have tc: "integer ?tc = votes Integer_vote values" "float ?tc = votes Float_vote values"
    "boolean ?tc = votes Boolean_vote values" "date ?tc = votes Date_vote values"
    "timestamp ?tc = votes Timestamp_vote values" "string ?tc = votes String_vote values"
    by (simp_all add: foldl_count_value no_counts_def)
  have total: "integer ?tc + float ?tc + boolean ?tc + date ?tc + timestamp ?tc + string ?tc
      = counted values"
    by (simp only: tc counted_sum)
  show ?thesis
    unfolding inferColumnType_def Let_def total
    by (simp add: tc spec_classify_def reaches_threshold_def)
qed

lemma spec_vote_None_iff:
  "spec_vote v = None \<longleftrightarrow> trim (String v) = [] \<or> toLowerCase (trim (String v)) = ''null''"
  by (simp add: spec_vote_def Let_def)

lemma votes_none: "\<forall>v\<in>set vs. spec_vote v = None \<Longrightarrow> votes k vs = 0 \<and> counted vs = 0"
  by (induction vs) (simp_all add: votes_def counted_def)

lemma classify_examples:
  "inferColumnType [] = STRING"
  "inferColumnType [JString ''1'', JString ''2'', JString ''3''] = STRING"
  "inferColumnType [JString ''1.5'', JString ''2.5''] = FLOAT"
  "inferColumnType [JString ''true'', JString ''false'', JString ''1''] = BOOLEAN"
  "inferColumnType [JString ''2024-01-01'', JString ''2024-02-02''] = DATE"
  "inferColumnType [JString ''a'', JString ''b'', JString ''1''] = STRING"
  by (simp_all add: infer_defs)

lemma match_Nil:
  "regex_match e (Rep P lo hi # qs) [] = (lo = 0 \<and> regex_match e qs [])"
  by simp

lemma match_Cons:
  "regex_match e (Rep P lo hi # qs) (c # cs) =
     ((lo = 0 \<and> regex_match e qs (c # cs)) \<or>
      (P c \<and> hi \<noteq> Some 0 \<and>
       regex_match e (Rep P (lo - 1) (map_option (\<lambda>h. h - 1) hi) # qs) cs))"
  by simp

lemma match_plus:
  "regex_match True [Rep P lo None] s \<longleftrightarrow> lo \<le> length s \<and> list_all P s"
proof (induction s arbitrary: lo)
  case Nil
  show ?case by simp
next
  case (Cons c cs)
  have "regex_match True [Rep P lo None] (c # cs)
      \<longleftrightarrow> P c \<and> regex_match True [Rep P (lo - 1) None] cs"
    by (simp only: match_Cons regex_match.simps(1)) simp
  also have "\<dots> \<longleftrightarrow> P c \<and> lo - 1 \<le> length cs \<and> list_all P cs"
    by (simp only: Cons)
  also have "\<dots> \<longleftrightarrow> lo \<le> length (c # cs) \<and> list_all P (c # cs)"
    by auto
  finally show ?case .
qed

lemma match_integer_pattern:
  "regex_match True integer_pattern s \<longleftrightarrow>
     (s \<noteq> [] \<and> list_all is_digit s) \<or>
     (\<exists>ds. s = CHR ''-'' # ds \<and> ds \<noteq> [] \<and> list_all is_digit ds)"
proof -
  have 1: "regex_match True [digits1] t \<longleftrightarrow> t \<noteq> [] \<and> list_all is_digit t" for t
    unfolding digits1_def match_plus by (cases t) auto
  have 2: "regex_match True [Rep (\<lambda>d. d = CHR ''-'') 0 (Some 0), digits1] t
     \<longleftrightarrow> regex_match True [digits1] t" for t
    by (cases t) (simp_all only: match_Nil match_Cons, simp_all)
  show ?thesis
  proof (cases s)
    case Nil
    then show ?thesis
      unfolding integer_pattern_def optional_def by (simp only: match_Nil 1) simp
  next
    case (Cons c cs)
    have "regex_match True integer_pattern (c # cs) \<longleftrightarrow>
        regex_match True [digits1] (c # cs) \<or> (c = CHR ''-'' \<and> regex_match True [digits1] cs)"
      unfolding integer_pattern_def optional_def
      by (simp del: regex_match.simps add: match_Cons 2)
    then show ?thesis unfolding Cons 1 by auto
  qed
qed

lemma digit_not_special:
  "is_digit c \<Longrightarrow> \<not> is_white_space c \<and> c \<noteq> CHR ''-'' \<and> c \<noteq> CHR ''+''"
  by (auto simp: is_digit_def is_white_space_def)

lemma bit_length_pos: "0 < n \<Longrightarrow> bit_length n = Suc (bit_length (n div 2))"
  by (subst bit_length.simps) simp

lemma bit_length_zero: "bit_length 0 = 0"
  by (subst bit_length.simps) simp

lemma bit_length_one: "bit_length (Suc 0) = Suc 0"
  by (simp add: bit_length_pos bit_length_zero)

lemma bit_length_lower: "0 < n \<Longrightarrow> 2 ^ (bit_length n - 1) \<le> n"
proof (induction n rule: bit_length.induct)
  case (1 n)
  have bl: "bit_length n - 1 = bit_length (n div 2)" using "1.prems" by (simp add: bit_length_pos)
  show ?case
  proof (cases "n div 2 = 0")
    case True
    have "(2::nat) ^ (bit_length n - 1) = 1" by (simp only: bl True bit_length_zero power_0)
    then show ?thesis using "1.prems" by simp
  next
    case False
    then have pos: "0 < n div 2" by simp
    have ih: "2 ^ (bit_length (n div 2) - 1) \<le> n div 2" using "1.IH" "1.prems" pos by simp
    have "bit_length (n div 2) = Suc (bit_length (n div 2) - 1)"
      using pos by (simp add: bit_length_pos)
    then have "(2::nat) ^ bit_length (n div 2) = 2 * 2 ^ (bit_length (n div 2) - 1)"
      by (metis power_Suc)
    also have "\<dots> \<le> 2 * (n div 2)" using ih by simp
    also have "\<dots> \<le> n" by simp
    finally show ?thesis by (simp only: bl)
  qed
qed

lemma binary_exponent_of_nat:
  assumes "0 < k"
  shows "binary_exponent (of_nat k) = int (bit_length k) - 1"
proof -
  have q: "quotient_of (of_nat k) = (int k, 1)"
    using quotient_of_int [of "int k"] by simp
  have pos: "0 < bit_length k" using assms by (simp add: bit_length_pos)
  then have d: "int (bit_length k) - 1 = int (bit_length k - 1)" by simp
  have "(2::rat) powi (int (bit_length k) - 1) = of_nat (2 ^ (bit_length k - 1))"
    by (simp only: d power_int_of_nat) simp
  also have "\<dots> \<le> of_nat k" using bit_length_lower [OF assms] by (simp only: of_nat_le_iff)
  finally have le: "(2::rat) powi (int (bit_length k) - 1) \<le> of_nat k" .
  show ?thesis
    unfolding binary_exponent_def q using le by (simp add: bit_length_one)
qed

lemma round_half_even_of_int: "round_half_even (of_int j) = j"
  by (simp add: round_half_even_def)

lemma round_magnitude_exact:
  assumes "k \<le> 2 ^ 53"
  shows "round_magnitude (of_nat k) = Finite (of_nat k)"
proof (cases "k = 0")
  case True
  then show ?thesis by (simp add: round_magnitude_def)
next
  case False
  then have pos: "0 < k" by simp
  define e where "e = int (bit_length k) - 1"
  have be: "binary_exponent (of_nat k) = e" using pos by (simp add: binary_exponent_of_nat e_def)
  have e0: "0 \<le> e" using pos by (simp add: e_def bit_length_pos)
  have "2 ^ nat e \<le> k" using bit_length_lower [OF pos] pos by (simp add: e_def bit_length_pos)
  then have p53: "(2::nat) ^ nat e \<le> 2 ^ 53" using assms by linarith
  have e53: "nat e \<le> 53" by (rule power_le_imp_le_exp [OF _ p53]) simp
  have small: "(of_nat k :: rat) < 2 ^ 1024"
  proof -
    have "(of_nat k :: rat) \<le> of_nat (2 ^ 53)" using assms by (simp only: of_nat_le_iff)
    also have "\<dots> < 2 ^ 1024" by simp
    finally show ?thesis .
  qed
  have int_quot: "\<exists>j. (of_nat k :: rat) / 2 powi (e - 52) = of_int j"
  proof (cases "e \<le> 52")
    case True
    define p where "p = nat (52 - e)"
    have "e - 52 = - int p" using True by (simp add: p_def)
    then have "(2::rat) powi (e - 52) = inverse (2 ^ p)"
      by (simp add: power_int_minus)
    then have "(of_nat k :: rat) / 2 powi (e - 52) = of_int (int k * 2 ^ p)"
      by (simp add: field_simps)
    then show ?thesis by blast
  next
    case False
    then have e: "e = 53" using e53 by linarith
    then have "2 ^ 53 \<le> k" using \<open>2 ^ nat e \<le> k\<close> by simp
    then have k: "k = 2 ^ 53" using assms by linarith
    have "(of_nat k :: rat) / 2 powi (e - 52) = of_int (2 ^ 52)"
      by (simp add: e k)
    then show ?thesis by blast
  qed
  then obtain j where j: "(of_nat k :: rat) / 2 powi (e - 52) = of_int j" by blast
  have nz: "(2::rat) powi (e - 52) \<noteq> 0" by simp
  have again: "of_int j * (2::rat) powi (e - 52) = of_nat k"
    using j nz by (metis nonzero_divide_eq_eq)
  have mx: "max e (- 1022) = e" using e0 by simp
  show ?thesis
    unfolding round_magnitude_def be Let_def mx j round_half_even_of_int again
    using False small by simp
qed

lemma round_magnitude_numeral:
  "numeral w \<le> (2::nat) ^ 53 \<Longrightarrow> round_magnitude (numeral w) = Finite (numeral w)"
  using round_magnitude_exact [of "numeral w"] by simp

lemma round_magnitude_one: "round_magnitude 1 = Finite 1"
  using round_magnitude_exact [of 1] by simp

lemma round_magnitude_zero: "round_magnitude 0 = Finite 0"
  by (simp add: round_magnitude_def)

lemmas number_simps = Number_value_def round_magnitude_numeral round_magnitude_one
  round_magnitude_zero

lemma parseInt_digits:
  assumes "ds \<noteq> []" "list_all is_digit ds"
  shows "parseInt ds = Some (Number_value False (of_nat (decimal_value ds)))"
    and "parseInt (CHR ''-'' # ds) = Some (Number_value True (of_nat (decimal_value ds)))"
proof -
  obtain c cs where ds: "ds = c # cs" using assms(1) by (cases ds) auto
  then have c: "is_digit c" using assms(2) by simp
  have tw: "takeWhile is_digit ds = ds" using assms(2) by (simp add: list_all_iff)
  have dw: "dropWhile is_white_space ds = ds"
    using digit_not_special [OF c] by (simp add: ds)
  have t1: "take 1 ds \<noteq> ''-''" "take 1 ds \<noteq> ''+''"
    using digit_not_special [OF c] by (simp_all add: ds)
  show "parseInt ds = Some (Number_value False (of_nat (decimal_value ds)))"
    unfolding parseInt_def Let_def dw using t1 assms(1) by (simp add: tw)
  have "\<not> is_white_space (CHR ''-'')" by (simp add: is_white_space_def)
  then have dw': "dropWhile is_white_space (CHR ''-'' # ds) = CHR ''-'' # ds" by simp
  show "parseInt (CHR ''-'' # ds) = Some (Number_value True (of_nat (decimal_value ds)))"
    unfolding parseInt_def Let_def dw' using assms(1) by (simp add: tw)
qed

lemma parseInt_integer_pattern:
  assumes "regex_match True integer_pattern s"
  shows "\<exists>negative ds. ds \<noteq> [] \<and> list_all is_digit ds
           \<and> s = (if negative then ''-'' else []) @ ds
           \<and> parseInt s = Some (Number_value negative (of_nat (decimal_value ds)))"
proof -
  from assms consider "s \<noteq> []" "list_all is_digit s"
    | ds where "s = CHR ''-'' # ds" "ds \<noteq> []" "list_all is_digit ds"
    unfolding match_integer_pattern by blast
  then show ?thesis
  proof cases
    case 1
    then show ?thesis using parseInt_digits(1) [of s] by (intro exI [of _ False] exI [of _ s]) simp
  next
    case 2
    then show ?thesis using parseInt_digits(2) [of ds] by (intro exI [of _ True] exI [of _ ds]) simp
  qed
qed

lemma Number_value_exact:
  "m \<le> 2 ^ 53 \<Longrightarrow>
     Number_value negative (of_nat m)
       = (if negative then negate (Finite (of_nat m)) else Finite (of_nat m))"
  by (simp add: Number_value_def round_magnitude_exact)

lemma integer_vote_iff:
  "integer (count_value no_counts v) = 1 \<longleftrightarrow> spec_vote v = Some Integer_vote"
  by (simp add: count_value_fields no_counts_def)

lemma trim_literals:
  "trim ''null'' = ''null''" "trim ''undefined'' = ''undefined''"
  by (simp_all add: trim_def drop_trailing_def is_white_space_def)

lemma special_votes:
  "spec_vote JNull = None" "spec_vote JUndefined = Some String_vote"
  by (simp_all add: spec_vote_def trim_literals, simp_all add: infer_defs)

lemma integer_vote_converts:
  assumes "integer (count_value no_counts v) = 1"
  shows "\<exists>negative ds. ds \<noteq> [] \<and> list_all is_digit ds
           \<and> trim (String v) = (if negative then ''-'' else []) @ ds
           \<and> convertValue v = CNumber (Number_value negative (of_nat (decimal_value ds)))
           \<and> (decimal_value ds \<le> 2 ^ 53 \<longrightarrow>
                convertValue v = CNumber (if negative then negate (Finite (of_nat (decimal_value ds)))
                                          else Finite (of_nat (decimal_value ds))))"
proof -
  let ?t = "trim (String v)"
  have sv: "spec_vote v = Some Integer_vote" using assms by (simp only: integer_vote_iff)
  then have v: "v \<noteq> JNull" "v \<noteq> JUndefined" using special_votes by auto
  have t: "?t \<noteq> []" "toLowerCase ?t \<noteq> ''null''"
    "toLowerCase ?t \<notin> {''true'', ''false'', ''1'', ''0'', ''yes'', ''no'', ''y'', ''n''}"
    "regex_match True integer_pattern ?t"
    using sv by (simp_all add: spec_vote_def Let_def split: if_splits)
  from parseInt_integer_pattern [OF t(4)] obtain negative ds where p:
    "ds \<noteq> []" "list_all is_digit ds" "?t = (if negative then ''-'' else []) @ ds"
    "parseInt ?t = Some (Number_value negative (of_nat (decimal_value ds)))"
    by blast
  have c: "convertValue v = CNumber (Number_value negative (of_nat (decimal_value ds)))"
    using v t p(4) by (simp add: convertValue_def Let_def)
  show ?thesis
    using p(1-3) c by (intro exI [of _ negative] exI [of _ ds]) (simp add: Number_value_exact)
qed

lemma convertValue_beyond_2_53:
  "convertValue (JString ''9007199254740993'') = CNumber (Finite 9007199254740992)"
proof -
  have f: "\<lfloor>9007199254740993 / (2::rat)\<rfloor> = 4503599627370496"
    by (rule floor_unique) simp_all
  show ?thesis
    by (simp add: infer_defs convert_defs Number_value_def round_magnitude_def
        binary_exponent_def round_half_even_def bit_length.simps power_int_def Let_def f)
qed

text \<open>
  Claim C2, as amended. On the empty list \<open>inferColumnType\<close> returns STRING. Otherwise
  every value whose trimmed text is neither empty nor \<open>null\<close> (in any case) adds one to
  exactly one counter, chosen by the tests in the order boolean set, integer pattern, float
  pattern, timestamp prefix, date patterns, string: the counters after the loop are the
  numbers of votes of each kind, and they add up to the number of counted values. The
  result is the first of INTEGER, FLOAT, BOOLEAN, TIMESTAMP, DATE whose counter is at least
  70% of the counted values, else STRING. The examples of the claim hold but for the first:
  the column \<open>1, 2, 3\<close> is STRING, because \<open>1\<close> is in the boolean set and votes
  boolean, which leaves two integer votes of three.
\<close>

theorem classifier_rule:
  "foldl count_value no_counts vs =
     \<lparr>integer = votes Integer_vote vs, float = votes Float_vote vs,
      boolean = votes Boolean_vote vs, date = votes Date_vote vs,
      timestamp = votes Timestamp_vote vs, string = votes String_vote vs\<rparr>
   \<and> counted vs = votes Integer_vote vs + votes Float_vote vs + votes Boolean_vote vs
        + votes Date_vote vs + votes Timestamp_vote vs + votes String_vote vs
   \<and> inferColumnType vs = spec_classify vs
   \<and> inferColumnType [] = STRING
   \<and> inferColumnType [JString ''1'', JString ''2'', JString ''3''] = STRING
   \<and> inferColumnType [JString ''1.5'', JString ''2.5''] = FLOAT
   \<and> inferColumnType [JString ''true'', JString ''false'', JString ''1''] = BOOLEAN
   \<and> inferColumnType [JString ''2024-01-01'', JString ''2024-02-02''] = DATE
   \<and> inferColumnType [JString ''a'', JString ''b'', JString ''1''] = STRING"
  using counted_sum [of vs] inferColumnType_spec [of vs] classify_examples
  by (simp add: foldl_count_value no_counts_def)

theorem classifier_rule_witness:
  "inferColumnType [JString ''7'', JString ''8.5'', JString ''9''] = STRING
   \<and> spec_classify [JString ''7'', JString ''8.5'', JString ''9''] = STRING
   \<and> votes Integer_vote [JString ''7'', JString ''8.5'', JString ''9''] = 2
   \<and> counted [JString ''7'', JString ''8.5'', JString ''9''] = 3"
proof -
  have "inferColumnType [JString ''7'', JString ''8.5'', JString ''9''] = STRING"
    by (simp add: infer_defs)
  moreover have "votes Integer_vote [JString ''7'', JString ''8.5'', JString ''9''] = 2"
    "counted [JString ''7'', JString ''8.5'', JString ''9''] = 3"
    by (simp_all add: votes_def counted_def spec_vote_def infer_defs)
  ultimately show ?thesis
    using classifier_rule [of "[JString ''7'', JString ''8.5'', JString ''9'']"] by simp
qed

text \<open>The claim as stated, at the column \<open>1, 2, 3\<close>: the result is not INTEGER.\<close>

theorem classify_123_counterexample:
  "inferColumnType [JString ''1'', JString ''2'', JString ''3''] = STRING
   \<and> inferColumnType [JString ''1'', JString ''2'', JString ''3''] \<noteq> INTEGER"
  by (simp add: infer_defs)

text \<open>
  Claim C3, as amended. In a column that \<open>inferColumnType\<close> classifies as INTEGER, at
  least 70% of the counted values are integer votes. The trimmed text of a sampled value
  that is an integer vote is a run of digits, with or without a minus sign in front (and is
  not in the boolean set), and \<open>convertValue\<close> turns it into a number, not a boolean, a
  string or \<open>null\<close>: the double nearest to the integer that the text denotes. That number
  is the integer itself whenever the digits denote at most \<open>2^53\<close> (the negative zero
  for a minus sign before zeros); beyond \<open>2^53\<close> it is the nearest double, which can
  differ from the integer. The other values of such a column are not covered: \<open>0\<close> and
  \<open>1\<close> become booleans.
\<close>

theorem integer_column_round_trip:
  assumes "inferColumnType vs = INTEGER"
  shows "(let tc = foldl count_value no_counts vs in
           7 * (integer tc + float tc + boolean tc + date tc + timestamp tc + string tc)
             \<le> 10 * integer tc)
       \<and> (\<forall>v\<in>set vs. integer (count_value no_counts v) = 1 \<longrightarrow>
             (\<exists>negative ds. ds \<noteq> [] \<and> list_all is_digit ds
                \<and> trim (String v) = (if negative then ''-'' else []) @ ds
                \<and> convertValue v = CNumber (Number_value negative (of_nat (decimal_value ds)))
                \<and> (decimal_value ds \<le> 2 ^ 53 \<longrightarrow>
                     convertValue v =
                       CNumber (if negative then negate (Finite (of_nat (decimal_value ds)))
                                else Finite (of_nat (decimal_value ds))))))"
proof
  show "let tc = foldl count_value no_counts vs in
           7 * (integer tc + float tc + boolean tc + date tc + timestamp tc + string tc)
             \<le> 10 * integer tc"
    using assms
    by (simp add: inferColumnType_def Let_def reaches_threshold_def split: if_splits)
  show "\<forall>v\<in>set vs. integer (count_value no_counts v) = 1 \<longrightarrow>
             (\<exists>negative ds. ds \<noteq> [] \<and> list_all is_digit ds
                \<and> trim (String v) = (if negative then ''-'' else []) @ ds
                \<and> convertValue v = CNumber (Number_value negative (of_nat (decimal_value ds)))
                \<and> (decimal_value ds \<le> 2 ^ 53 \<longrightarrow>
                     convertValue v =
                       CNumber (if negative then negate (Finite (of_nat (decimal_value ds)))
                                else Finite (of_nat (decimal_value ds)))))"
    using integer_vote_converts by blast
qed

text \<open>
  The claim as stated fails on the column \<open>0, 2, 3, 4\<close>: it is classified INTEGER, and
  its value \<open>0\<close> is converted to \<open>false\<close>.
\<close>

theorem integer_column_round_trip_counterexample:
  "inferColumnType [JString ''0'', JString ''2'', JString ''3'', JString ''4''] = INTEGER
   \<and> JString ''0'' \<in> set [JString ''0'', JString ''2'', JString ''3'', JString ''4'']
   \<and> convertValue (JString ''0'') = CBoolean False"
  by (simp add: infer_defs convert_defs)

theorem integer_column_round_trip_witness:
  "inferColumnType [JString ''0'', JString ''2'', JString '' -30 '', JNumber ''4'',
                    JString ''9007199254740993''] = INTEGER
   \<and> convertValue (JString ''2'') = CNumber (Finite 2)
   \<and> convertValue (JString '' -30 '') = CNumber (Finite (- 30))
   \<and> convertValue (JNumber ''4'') = CNumber (Finite 4)
   \<and> convertValue (JString ''9007199254740993'') = CNumber (Finite 9007199254740992)"
proof -
  have i: "inferColumnType [JString ''0'', JString ''2'', JString '' -30 '', JNumber ''4'',
                    JString ''9007199254740993''] = INTEGER"
    by (simp add: infer_defs)
  have c: "convertValue (JString ''2'') = CNumber (Finite 2)"
     "convertValue (JString '' -30 '') = CNumber (Finite (- 30))"
     "convertValue (JNumber ''4'') = CNumber (Finite 4)"
    using integer_column_round_trip [OF i]
    by (simp_all add: infer_defs convert_defs number_simps)
  from i c convertValue_beyond_2_53 show ?thesis by simp
qed

text \<open>
  Claim C10. For every non-empty list of values that are all skipped (the trimmed text of
  each is empty or \<open>null\<close> in any case), \<open>inferColumnType\<close> returns INTEGER: no counter
  moves, the threshold is 0, and the integer counter is the first that is compared with it.
\<close>

theorem all_skipped_is_INTEGER:
  assumes "vs \<noteq> []"
    and "\<forall>v\<in>set vs. trim (String v) = [] \<or> toLowerCase (trim (String v)) = ''null''"
  shows "inferColumnType vs = INTEGER"
proof -
  have "\<forall>v\<in>set vs. spec_vote v = None" using assms(2) by (simp add: spec_vote_None_iff)
  then have "votes Integer_vote vs = 0" "counted vs = 0" using votes_none by blast+
  then show ?thesis using assms(1) by (simp add: inferColumnType_spec spec_classify_def)
qed

theorem all_skipped_is_INTEGER_witness:
  "inferColumnType [JString ''  '', JString ''NULL'', JNull, JString ''''] = INTEGER"
  by (rule all_skipped_is_INTEGER) (simp_all add: toLowerCase_def trim_def drop_trailing_def lower_char_def is_upper_def is_white_space_def)

section \<open>Properties of detectCSVSchema\<close>

lemma length_filter_eq_iff: "length (filter P xs) = length xs \<longleftrightarrow> (\<forall>x\<in>set xs. P x)"
proof (induction xs)
  case Nil
  show ?case by simp
next
  case (Cons x xs)
  show ?case
  proof (cases "P x")
    case True
    then show ?thesis using Cons by simp
  next
    case False
    have "length (filter P xs) < Suc (length xs)" by (simp add: less_Suc_eq_le)
    then show ?thesis using False by auto
  qed
qed

lemma columnValues_full:
  "length (columnValues rows i) = length rows \<longleftrightarrow> (\<forall>row\<in>set rows. i < length row \<and> row ! i \<noteq> [])"
proof -
  have "length (columnValues rows i)
      = length (filter (\<lambda>row. at_index row i \<noteq> JNull \<and> at_index row i \<noteq> JUndefined
                                \<and> at_index row i \<noteq> JString []) rows)"
    by (simp add: columnValues_def filter_map comp_def)
  then show ?thesis
    by (auto simp: length_filter_eq_iff at_index_def)
qed

lemma detectCSVSchema_fields:
  assumes "detectCSVSchema csvContent = Inr schema"
  shows "length schema = length (parseCSVLine (split_lines (trim csvContent) ! 0))"
    and "i < length schema \<Longrightarrow>
         schema ! i =
           \<lparr>name = sanitizeFieldName (parseCSVLine (split_lines (trim csvContent) ! 0) ! i),
            type = inferColumnType (columnValues (sampleRows (split_lines (trim csvContent))) i),
            mode = (if length (columnValues (sampleRows (split_lines (trim csvContent))) i)
                        = length (sampleRows (split_lines (trim csvContent)))
                    then REQUIRED else NULLABLE)\<rparr>"
proof -
  let ?lines = "split_lines (trim csvContent)"
  let ?headers = "parseCSVLine (?lines ! 0)"
  have s: "schema = map (\<lambda>(index, header).
               \<lparr>name = sanitizeFieldName header,
                type = inferColumnType (columnValues (sampleRows ?lines) index),
                mode = (if length (columnValues (sampleRows ?lines) index)
                           = length (sampleRows ?lines)
                        then REQUIRED else NULLABLE)\<rparr>)
             (enumerate 0 ?headers)"
    using assms by (simp add: detectCSVSchema_def Let_def split: if_splits)
  show "length schema = length ?headers" by (simp add: s)
  then show "i < length schema \<Longrightarrow>
         schema ! i =
           \<lparr>name = sanitizeFieldName (?headers ! i),
            type = inferColumnType (columnValues (sampleRows ?lines) i),
            mode = (if length (columnValues (sampleRows ?lines) i) = length (sampleRows ?lines)
                    then REQUIRED else NULLABLE)\<rparr>"
    by (simp add: s nth_enumerate_eq)
qed

text \<open>
  Claim C8, as amended. In \<open>detectCSVSchema\<close> the mode of a field is REQUIRED if and only
  if every sampled row has a value at the position of the field and that value is not
  empty, and NULLABLE otherwise. On the text of the claim (header \<open>id,name\<close>, rows
  \<open>1,Alice\<close>, \<open>2,Bob\<close> and \<open>3,\<close>) the result is exactly the field \<open>id\<close> with type
  STRING and mode REQUIRED and the field \<open>name\<close> with type STRING and mode NULLABLE: the
  value \<open>1\<close> votes boolean, so only two of the three votes of \<open>id\<close> are integer.
\<close>

theorem csv_mode_required_iff:
  "(detectCSVSchema csvContent = Inr schema \<longrightarrow>
      (\<forall>i<length schema.
         mode (schema ! i) =
           (if \<forall>row\<in>set (sampleRows (split_lines (trim csvContent))).
                 i < length row \<and> row ! i \<noteq> []
            then REQUIRED else NULLABLE)))
   \<and> detectCSVSchema ''id,name\<newline>1,Alice\<newline>2,Bob\<newline>3,'' =
       Inr [\<lparr>name = ''id'', type = STRING, mode = REQUIRED\<rparr>,
            \<lparr>name = ''name'', type = STRING, mode = NULLABLE\<rparr>]"
proof
  show "detectCSVSchema csvContent = Inr schema \<longrightarrow>
      (\<forall>i<length schema.
         mode (schema ! i) =
           (if \<forall>row\<in>set (sampleRows (split_lines (trim csvContent))).
                 i < length row \<and> row ! i \<noteq> []
            then REQUIRED else NULLABLE))"
    by (auto simp: detectCSVSchema_fields(2) columnValues_full)
  show "detectCSVSchema ''id,name\<newline>1,Alice\<newline>2,Bob\<newline>3,'' =
       Inr [\<lparr>name = ''id'', type = STRING, mode = REQUIRED\<rparr>,
            \<lparr>name = ''name'', type = STRING, mode = NULLABLE\<rparr>]"
    by (simp add: csv_defs infer_defs sanitize_defs)
qed

text \<open>The claim as stated: the type of \<open>id\<close> on that text is not INTEGER.\<close>

theorem csv_example_counterexample:
  "detectCSVSchema ''id,name\<newline>1,Alice\<newline>2,Bob\<newline>3,'' \<noteq>
       Inr [\<lparr>name = ''id'', type = INTEGER, mode = REQUIRED\<rparr>,
            \<lparr>name = ''name'', type = STRING, mode = NULLABLE\<rparr>]"
  by (simp add: csv_defs infer_defs sanitize_defs)

theorem csv_mode_required_iff_witness:
  "detectCSVSchema ''a,b\<newline>x,\<newline>y,2.5'' =
       Inr [\<lparr>name = ''a'', type = STRING, mode = REQUIRED\<rparr>,
            \<lparr>name = ''b'', type = FLOAT, mode = NULLABLE\<rparr>]
   \<and> sampleRows (split_lines (trim ''a,b\<newline>x,\<newline>y,2.5'')) = [[''x'', ''''], [''y'', ''2.5'']]"
proof -
  have d: "detectCSVSchema ''a,b\<newline>x,\<newline>y,2.5'' =
       Inr [\<lparr>name = ''a'', type = STRING, mode = REQUIRED\<rparr>,
            \<lparr>name = ''b'', type = FLOAT, mode = NULLABLE\<rparr>]"
    by (simp add: csv_defs infer_defs sanitize_defs)
  have r: "sampleRows (split_lines (trim ''a,b\<newline>x,\<newline>y,2.5'')) = [[''x'', ''''], [''y'', ''2.5'']]"
    by (simp add: csv_defs infer_defs)
  from d r csv_mode_required_iff [of "''a,b\<newline>x,\<newline>y,2.5''"] show ?thesis by simp
qed

section \<open>Properties of parseCSV and parseJSON\<close>

lemma parseCSV_rows_filter:
  "parseCSV_rows headers ls =
     map (\<lambda>line. csv_row headers (parseCSVLine line))
       (filter (\<lambda>line. length (parseCSVLine line) = length headers) ls)"
  by (induction ls) (simp_all add: Let_def)

lemma length_filter_minus:
  "length (filter P xs) = length xs - length (filter (\<lambda>x. \<not> P x) xs)"
  using sum_length_filter_compl [of P xs] by simp

lemma set_field_keys:
  "fst ` set (set_field values row (index, header))
     = insert (sanitizeFieldName header) (fst ` set row)"
  by (simp add: set_field_def Let_def dom_update del: String.simps)

lemma foldl_set_field_keys:
  "fst ` set (foldl (set_field values) acc hs)
     = fst ` set acc \<union> sanitizeFieldName ` snd ` set hs"
proof (induction hs arbitrary: acc)
  case Nil
  show ?case by simp
next
  case (Cons h hs)
  obtain index header where h: "h = (index, header)" by (cases h)
  show ?case unfolding h by (simp add: Cons set_field_keys del: String.simps)
qed

lemma csv_row_keys: "fst ` set (csv_row headers values) = sanitizeFieldName ` set headers"
proof -
  have "snd ` set (enumerate 0 headers) = set headers"
    by (metis map_snd_enumerate set_map)
  then show ?thesis
    unfolding csv_row_def foldl_set_field_keys by simp
qed

text \<open>
  Claim C5. For a CSV text with a header line and at least one more line, \<open>parseCSV\<close>
  does not fail; it returns one row for each line after the header whose number of tokens
  is the header's, in order, and nothing for any other line, so the number of rows is the
  number of those lines minus the number of mismatched ones. Every row it returns has
  exactly the sanitized header names as its fields.
\<close>

theorem parseCSV_drops_mismatched_lines:
  assumes "2 \<le> length (split_lines (trim csvContent))"
  shows "let lines = split_lines (trim csvContent);
             headers = parseCSVLine (lines ! 0);
             matching = (\<lambda>line. length (parseCSVLine line) = length headers)
         in \<exists>rows. parseCSV csvContent = Inr rows
              \<and> rows = map (\<lambda>line. csv_row headers (parseCSVLine line))
                         (filter matching (drop 1 lines))
              \<and> length rows = length (drop 1 lines)
                              - length (filter (\<lambda>line. \<not> matching line) (drop 1 lines))
              \<and> (\<forall>row\<in>set rows. fst ` set row = sanitizeFieldName ` set headers)"
proof -
  let ?lines = "split_lines (trim csvContent)"
  let ?headers = "parseCSVLine (?lines ! 0)"
  let ?matching = "\<lambda>line. length (parseCSVLine line) = length ?headers"
  let ?rows = "map (\<lambda>line. csv_row ?headers (parseCSVLine line)) (filter ?matching (drop 1 ?lines))"
  have 1: "parseCSV csvContent = Inr ?rows"
    using assms by (simp add: parseCSV_def Let_def parseCSV_rows_filter)
  have 2: "length ?rows = length (drop 1 ?lines)
                              - length (filter (\<lambda>line. \<not> ?matching line) (drop 1 ?lines))"
    using length_filter_minus [of ?matching "drop 1 ?lines"] by simp
  have 3: "\<forall>row\<in>set ?rows. fst ` set row = sanitizeFieldName ` set ?headers"
    by (auto simp: csv_row_keys)
  show ?thesis unfolding Let_def using 1 2 3 by blast
qed

theorem parseCSV_drops_mismatched_lines_witness:
  "parseCSV ''id,name\<newline>1,Alice\<newline>2\<newline>3,Bob,x\<newline>4,'' =
     Inr [[(''id'', CBoolean True), (''name'', CString ''Alice'')],
          [(''id'', CNumber (Finite 4)), (''name'', CNull)]]
   \<and> length (drop 1 (split_lines (trim ''id,name\<newline>1,Alice\<newline>2\<newline>3,Bob,x\<newline>4,''))) = 4"
proof -
  have l: "split_lines (trim ''id,name\<newline>1,Alice\<newline>2\<newline>3,Bob,x\<newline>4,'')
      = [''id,name'', ''1,Alice'', ''2'', ''3,Bob,x'', ''4,'']"
    by (simp add: trim_def drop_trailing_def is_white_space_def)
  then have "2 \<le> length (split_lines (trim ''id,name\<newline>1,Alice\<newline>2\<newline>3,Bob,x\<newline>4,''))"
    by simp
  from parseCSV_drops_mismatched_lines [OF this] l show ?thesis
    by (simp add: Let_def csv_defs csv_row_def set_field_def convert_defs number_simps
        infer_defs sanitize_defs)
qed

lemma map_records_primitive:
  "Primitive v \<in> set items \<Longrightarrow> map_records items = Inl ''Each record must be an object''"
proof (induction items)
  case Nil
  then show ?case by simp
next
  case (Cons item items)
  show ?case
  proof (cases item)
    case (Primitive u)
    then show ?thesis by simp
  next
    case (Object entries)
    then show ?thesis using Cons by auto
  next
    case (Array xs)
    then show ?thesis using Cons by auto
  qed
qed

lemma map_records_no_primitive:
  "\<forall>item\<in>set items. \<forall>v. item \<noteq> Primitive v \<Longrightarrow>
     \<exists>rows. map_records items = Inr rows \<and> length rows = length items"
proof (induction items)
  case Nil
  show ?case by simp
next
  case (Cons item items)
  then obtain rows where "map_records items = Inr rows" "length rows = length items" by auto
  then show ?case using Cons.prems by (cases item) auto
qed

lemma parseJSON_primitive_element_fails:
  "JSON_parse text = Inr (Top_array items) \<Longrightarrow> Primitive v \<in> set items \<Longrightarrow>
     parseJSON JSON_parse text = Inl ''Invalid JSON format: Each record must be an object''"
  by (simp add: parseJSON_def map_records_primitive)

lemma parseJSON_one_row_each:
  "JSON_parse text = Inr (Top_array items) \<Longrightarrow> \<forall>item\<in>set items. \<forall>v. item \<noteq> Primitive v \<Longrightarrow>
     \<exists>rows. parseJSON JSON_parse text = Inr rows \<and> length rows = length items"
  using map_records_no_primitive [of items] by (auto simp: parseJSON_def)

text \<open>
  Claim C4. The claim: when the parsed document is an array and some element is not an
  object, \<open>parseJSON\<close> fails and returns no rows. The code breaks it for an element that
  is an array: \<open>typeof\<close> gives \<open>'object'\<close> for an array, so the test that throws
  \<open>Each record must be an object\<close> lets it pass, and the element becomes a row whose
  fields are its indices. On the document \<open>[[1,2]]\<close> the result is one row, not an
  error. (Elements that are \<open>null\<close>, booleans, numbers or strings do fail the whole
  operation, and a document of objects gives one row for each: the two lemmas above.)
\<close>

theorem parseJSON_array_element:
  "parseJSON (\<lambda>text. Inr (Top_array [Array [JNumber ''1'', JNumber ''2'']])) ''[[1,2]]'' =
     Inr [[(''0'', CBoolean True), (''1'', CNumber (Finite 2))]]"
  by (simp add: json_defs convert_defs number_simps infer_defs sanitize_defs)

section \<open>Properties of POST\<close>

lemma batches_count:
  fixes i n b :: nat
  assumes "i < n" "0 < b"
  shows "(n - i + (b - 1)) div b = Suc ((n - (i + b) + (b - 1)) div b)"
proof (cases "i + b \<le> n")
  case True
  define m where "m = n - (i + b) + (b - 1)"
  have e: "n - i + (b - 1) = m + b" using True assms by (simp add: m_def)
  have "b \<noteq> 0" using assms(2) by simp
  then have "(m + b) div b = m div b + 1" by (rule div_add_self2)
  then show ?thesis unfolding e m_def by simp
next
  case False
  then have z: "n - (i + b) = 0" by simp
  have "(b - 1) div b = 0" using assms(2) by simp
  moreover have "(n - i + (b - 1)) div b = 1"
  proof (rule div_nat_eqI)
    show "b * 1 \<le> n - i + (b - 1)" using assms by simp
    show "n - i + (b - 1) < b * Suc 1" using False assms by simp
  qed
  ultimately show ?thesis by (simp add: z)
qed

lemma batches_of_Nil: "batches_of n [] = []"
  by (subst batches_of.simps) simp

lemma batches_of_step: "0 < n \<Longrightarrow> xs \<noteq> [] \<Longrightarrow> batches_of n xs = take n xs # batches_of n (drop n xs)"
  by (subst batches_of.simps) simp

lemma concat_batches_of: "0 < n \<Longrightarrow> concat (batches_of n xs) = xs"
proof (induction n xs rule: batches_of.induct)
  case (1 n xs)
  show ?case
  proof (cases "xs = []")
    case True
    then show ?thesis by (simp add: batches_of_Nil)
  next
    case False
    have step: "batches_of n xs = take n xs # batches_of n (drop n xs)"
      using "1.prems" False by (rule batches_of_step)
    show ?thesis using 1 False by (simp add: step)
  qed
qed

lemma batches_of_sizes: "0 < n \<Longrightarrow> \<forall>batch\<in>set (batches_of n xs). batch \<noteq> [] \<and> length batch \<le> n"
proof (induction n xs rule: batches_of.induct)
  case (1 n xs)
  show ?case
  proof (cases "xs = []")
    case True
    then show ?thesis by (simp add: batches_of_Nil)
  next
    case False
    have step: "batches_of n xs = take n xs # batches_of n (drop n xs)"
      using "1.prems" False by (rule batches_of_step)
    show ?thesis using 1 False by (simp add: step)
  qed
qed

lemma length_batches_of: "0 < n \<Longrightarrow> length (batches_of n xs) = (length xs + (n - 1)) div n"
proof (induction n xs rule: batches_of.induct)
  case (1 n xs)
  show ?case
  proof (cases "xs = []")
    case True
    then show ?thesis using "1.prems" by (simp add: batches_of_Nil)
  next
    case False
    then have pos: "0 < length xs" by simp
    have ih: "length (batches_of n (drop n xs)) = (length (drop n xs) + (n - 1)) div n"
      using 1 False by simp
    have "(length xs - 0 + (n - 1)) div n = Suc ((length xs - (0 + n) + (n - 1)) div n)"
      using pos "1.prems" by (rule batches_count)
    moreover have step: "batches_of n xs = take n xs # batches_of n (drop n xs)"
      using "1.prems" False by (rule batches_of_step)
    ultimately show ?thesis using ih by (simp add: step)
  qed
qed

lemma length_submit:
  "submit w datasetId tableId batches s = (oks, s') \<Longrightarrow> length oks = length batches"
proof (induction batches arbitrary: s oks s')
  case Nil
  then show ?case by simp
next
  case (Cons batch rest)
  then show ?case by (auto split: prod.splits)
qed

lemma inserted_rows_le:
  "inserted_rows batches oks \<le> length (concat batches)"
proof (induction batches arbitrary: oks)
  case Nil
  show ?case by (simp add: inserted_rows_def)
next
  case (Cons batch rest)
  show ?case
  proof (cases oks)
    case Nil
    then show ?thesis by (simp add: inserted_rows_def)
  next
    case (Cons ok oks')
    have "inserted_rows rest oks' \<le> length (concat rest)" by (rule Cons.IH)
    then show ?thesis using Cons by (simp add: inserted_rows_def)
  qed
qed

lemma batches_of_drop_step:
  assumes "i < length rows"
  shows "batches_of batchSize (drop i rows)
           = slice rows i (i + batchSize) # batches_of batchSize (drop (i + batchSize) rows)"
proof -
  have ne: "drop i rows \<noteq> []" using assms by simp
  have "slice rows i (i + batchSize) = take batchSize (drop i rows)"
    by (simp add: slice_def drop_take)
  moreover have "drop batchSize (drop i rows) = drop (i + batchSize) rows"
    by (simp add: add.commute)
  ultimately show ?thesis using batches_of_step [OF _ ne, of batchSize] by (simp add: batchSize_def)
qed

lemma insert_batches_submit:
  "submit w datasetId tableId (batches_of batchSize (drop i rows)) s = (oks, s')
   \<Longrightarrow> insert_batches w datasetId tableId rows i total_before calls s =
         (total_before + inserted_rows (batches_of batchSize (drop i rows)) oks,
          calls @ map (\<lambda>(batch, ok). Insert_call batch ok)
                    (zip (batches_of batchSize (drop i rows)) oks),
          s')"
proof (induction w datasetId tableId rows i total_before calls s arbitrary: oks s'
       rule: insert_batches.induct)
  case (1 w datasetId tableId rows i totalInserted calls s)
  show ?case
  proof (cases "i < length rows")
    case False
    then have "batches_of batchSize (drop i rows) = []" by (simp add: batches_of_Nil)
    then show ?thesis using "1.prems" False
      by (simp add: insert_batches.simps [of w _ _ rows i] inserted_rows_def)
  next
    case True
    let ?batch = "slice rows i (i + batchSize)"
    let ?rest = "batches_of batchSize (drop (i + batchSize) rows)"
    note step = batches_of_drop_step [OF True]
    obtain r s1 where ins: "table_insert w datasetId tableId ?batch s = (r, s1)"
      by (cases "table_insert w datasetId tableId ?batch s")
    obtain oks1 where sub: "submit w datasetId tableId ?rest s1 = (oks1, s')"
      and oks: "oks = (case r of Resolved u \<Rightarrow> True | Rejected message \<Rightarrow> False) # oks1"
      using "1.prems" unfolding step by (auto simp: ins split: prod.splits)
    show ?thesis
    proof (cases r)
      case (Resolved u)
      have "insert_batches w datasetId tableId rows (i + batchSize)
              (totalInserted + length ?batch) (calls @ [Insert_call ?batch True]) s1
            = (totalInserted + length ?batch + inserted_rows ?rest oks1,
               (calls @ [Insert_call ?batch True])
                 @ map (\<lambda>(batch, ok). Insert_call batch ok) (zip ?rest oks1), s')"
        by (rule "1.IH"(1) [OF True refl ins [symmetric] Resolved sub])
      then show ?thesis
        unfolding step oks using True ins Resolved
        by (simp add: insert_batches.simps [of w _ _ rows i] Let_def inserted_rows_def)
    next
      case (Rejected insertError)
      have "insert_batches w datasetId tableId rows (i + batchSize)
              totalInserted (calls @ [Insert_call ?batch False]) s1
            = (totalInserted + inserted_rows ?rest oks1,
               (calls @ [Insert_call ?batch False])
                 @ map (\<lambda>(batch, ok). Insert_call batch ok) (zip ?rest oks1), s')"
        by (rule "1.IH"(2) [OF True refl ins [symmetric] Rejected sub])
      then show ?thesis
        unfolding step oks using True ins Rejected
        by (simp add: insert_batches.simps [of w _ _ rows i] Let_def inserted_rows_def)
    qed
  qed
qed

lemma POST_loads:
  assumes req: "datasetId \<noteq> []" "tableId \<noteq> []" "content \<noteq> []"
    and parsed: "(data_type = ''csv'' \<and> parseCSV content = Inr rows)
        \<or> (data_type = ''json'' \<and> parseJSON JSON_parse content = Inr rows)"
    and rows: "rows \<noteq> []"
    and ex: "table_exists w datasetId tableId s = (Resolved True, s1)"
    and purge: "(calls, s2) =
        (if (case requested_mode of None \<Rightarrow> ''append'' | Some m \<Rightarrow> m) = ''replace''
         then (case delete_all w datasetId tableId s1 of
                 (Resolved u, s') \<Rightarrow> ([Exists_call, Delete_call True], s')
               | (Rejected deleteError, s') \<Rightarrow> ([Exists_call, Delete_call False], s'))
         else ([Exists_call], s1))"
    and sub: "submit w datasetId tableId (batches_of 1000 rows) s2 = (oks, s3)"
  shows "POST w JSON_parse s datasetId tableId content data_type requested_mode =
           (Ok_response \<lparr>success = True, rowsInserted = inserted_rows (batches_of 1000 rows) oks,
              totalRows = length rows, table_ref = datasetId @ ''.'' @ tableId,
              write_mode = (case requested_mode of None \<Rightarrow> ''append'' | Some m \<Rightarrow> m)\<rparr>,
            calls @ map (\<lambda>(batch, ok). Insert_call batch ok) (zip (batches_of 1000 rows) oks),
            s3)"
proof -
  have "submit w datasetId tableId (batches_of batchSize (drop 0 rows)) s2 = (oks, s3)"
    using sub by (simp add: batchSize_def)
  from insert_batches_submit [OF this, of 0 calls]
  have ib: "insert_batches w datasetId tableId rows 0 0 calls s2 =
      (inserted_rows (batches_of 1000 rows) oks,
       calls @ map (\<lambda>(batch, ok). Insert_call batch ok) (zip (batches_of 1000 rows) oks), s3)"
    by (simp add: batchSize_def)
  have dt: "data_type \<noteq> []" "data_type = ''csv'' \<or> data_type = ''json''"
    using parsed by auto
  have p: "(if data_type = ''csv'' then parseCSV content else parseJSON JSON_parse content)
      = Inr rows"
    using parsed by auto
  show ?thesis
    unfolding POST_def Let_def p
    using req dt rows ex purge [symmetric] ib by simp
qed

lemma map_records_replicate:
  "map_records (replicate n (Object [])) = Inr (replicate n [])"
  by (induction n) (simp_all add: clean_entries_def)

lemma batches_of_1500:
  "batches_of 1000 (replicate 1500 ([]::row)) = [replicate 1000 [], replicate 500 []]"
  by (simp add: batches_of.simps [of 1000])

text \<open>
  Claim C6. When the request is well formed, its content converts to the rows \<open>rows\<close>,
  of which there is at least one, and the table exists, \<open>POST\<close> cuts \<open>rows\<close> in order
  into consecutive batches of at most 1000 rows (none empty, together they are \<open>rows\<close>,
  \<open>\<lceil>length rows / 1000\<rceil>\<close> in number) and gives every one of them to the warehouse's
  insert, in order, each from the state the one before left, whether that one was inserted
  or rejected: the state it ends in and the outcomes are those of submitting all the
  batches, from the state after the existence check and, in replace mode, the delete. It
  answers with success; \<open>totalRows\<close> is the number of rows, \<open>rowsInserted\<close> is the sum of
  the sizes of the batches that were inserted, and \<open>rowsInserted \<le> totalRows\<close>.
\<close>

theorem load_in_batches:
  assumes "datasetId \<noteq> []" "tableId \<noteq> []" "content \<noteq> []"
    and "(data_type = ''csv'' \<and> parseCSV content = Inr rows)
        \<or> (data_type = ''json'' \<and> parseJSON JSON_parse content = Inr rows)"
    and "rows \<noteq> []"
    and "table_exists w datasetId tableId s = (Resolved True, s1)"
    and "(calls, s2) =
        (if (case requested_mode of None \<Rightarrow> ''append'' | Some m \<Rightarrow> m) = ''replace''
         then (case delete_all w datasetId tableId s1 of
                 (Resolved u, s') \<Rightarrow> ([Exists_call, Delete_call True], s')
               | (Rejected deleteError, s') \<Rightarrow> ([Exists_call, Delete_call False], s'))
         else ([Exists_call], s1))"
    and "submit w datasetId tableId (batches_of 1000 rows) s2 = (oks, s3)"
  shows "POST w JSON_parse s datasetId tableId content data_type requested_mode =
           (Ok_response \<lparr>success = True, rowsInserted = inserted_rows (batches_of 1000 rows) oks,
              totalRows = length rows, table_ref = datasetId @ ''.'' @ tableId,
              write_mode = (case requested_mode of None \<Rightarrow> ''append'' | Some m \<Rightarrow> m)\<rparr>,
            calls @ map (\<lambda>(batch, ok). Insert_call batch ok) (zip (batches_of 1000 rows) oks),
            s3)
       \<and> concat (batches_of 1000 rows) = rows
       \<and> (\<forall>batch\<in>set (batches_of 1000 rows). batch \<noteq> [] \<and> length batch \<le> 1000)
       \<and> length (batches_of 1000 rows) = (length rows + 999) div 1000
       \<and> length oks = length (batches_of 1000 rows)
       \<and> inserted_rows (batches_of 1000 rows) oks \<le> length rows"
proof (intro conjI)
  show "POST w JSON_parse s datasetId tableId content data_type requested_mode =
           (Ok_response \<lparr>success = True, rowsInserted = inserted_rows (batches_of 1000 rows) oks,
              totalRows = length rows, table_ref = datasetId @ ''.'' @ tableId,
              write_mode = (case requested_mode of None \<Rightarrow> ''append'' | Some m \<Rightarrow> m)\<rparr>,
            calls @ map (\<lambda>(batch, ok). Insert_call batch ok) (zip (batches_of 1000 rows) oks),
            s3)"
    using assms by (rule POST_loads)
  show c: "concat (batches_of 1000 rows) = rows" by (simp add: concat_batches_of)
  show "\<forall>batch\<in>set (batches_of 1000 rows). batch \<noteq> [] \<and> length batch \<le> 1000"
    by (rule batches_of_sizes) simp
  show "length (batches_of 1000 rows) = (length rows + 999) div 1000"
    using length_batches_of [of 1000 rows] by simp
  show "length oks = length (batches_of 1000 rows)" using assms(8) by (rule length_submit)
  show "inserted_rows (batches_of 1000 rows) oks \<le> length rows"
    using inserted_rows_le [of "batches_of 1000 rows" oks] by (simp only: c)
qed

theorem load_in_batches_witness:
  "parseJSON many_records ''[{}, ...]'' = Inr (replicate 1500 [])
   \<and> submit flaky_warehouse ''shop'' ''orders'' (batches_of 1000 (replicate 1500 [])) (0, [])
       = ([False, True], (2, replicate 500 []))
   \<and> POST flaky_warehouse many_records (0, []) ''shop'' ''orders'' ''[{}, ...]'' ''json'' None =
       (Ok_response \<lparr>success = True, rowsInserted = 500, totalRows = 1500,
          table_ref = ''shop.orders'', write_mode = ''append''\<rparr>,
        [Exists_call, Insert_call (replicate 1000 []) False, Insert_call (replicate 500 []) True],
        (2, replicate 500 []))"
proof -
  have parsed: "parseJSON many_records ''[{}, ...]'' = Inr (replicate 1500 [])"
    by (simp add: parseJSON_def many_records_def map_records_replicate)
  have ex: "table_exists flaky_warehouse ''shop'' ''orders'' (0, []) = (Resolved True, (0, []))"
    by (simp add: flaky_warehouse_def)
  have sub: "submit flaky_warehouse ''shop'' ''orders'' (batches_of 1000 (replicate 1500 [])) (0, [])
       = ([False, True], (2, replicate 500 []))"
    by (simp add: batches_of_1500 flaky_warehouse_def)
  have "POST flaky_warehouse many_records (0, []) ''shop'' ''orders'' ''[{}, ...]'' ''json'' None =
       (Ok_response \<lparr>success = True, rowsInserted = 500, totalRows = 1500,
          table_ref = ''shop.orders'', write_mode = ''append''\<rparr>,
        [Exists_call, Insert_call (replicate 1000 []) False, Insert_call (replicate 500 []) True],
        (2, replicate 500 []))"
    using load_in_batches [of "''shop''" "''orders''" "''[{}, ...]''" "''json''"
        "replicate 1500 []" many_records flaky_warehouse "(0, [])" "(0, [])"
        "[Exists_call]" "(0, [])" None "[False, True]" "(2, replicate 500 [])"]
      parsed ex sub
    by (simp add: batches_of_1500 inserted_rows_def)
  with parsed sub show ?thesis by simp
qed

text \<open>
  Claim C7. In replace mode on an existing table, when the delete query is rejected,
  \<open>POST\<close> still answers with success and not with an error: from the state the rejected
  delete left, it gives all the batches of the rows to the warehouse's insert, in order,
  and the response carries \<open>rowsInserted\<close> (the rows of the batches that were inserted)
  and the mode \<open>replace\<close>.
\<close>

theorem replace_swallows_purge_failure:
  assumes "datasetId \<noteq> []" "tableId \<noteq> []" "content \<noteq> []"
    and "(data_type = ''csv'' \<and> parseCSV content = Inr rows)
        \<or> (data_type = ''json'' \<and> parseJSON JSON_parse content = Inr rows)"
    and "rows \<noteq> []"
    and "table_exists w datasetId tableId s = (Resolved True, s1)"
    and "delete_all w datasetId tableId s1 = (Rejected deleteError, s2)"
    and "submit w datasetId tableId (batches_of 1000 rows) s2 = (oks, s3)"
  shows "POST w JSON_parse s datasetId tableId content data_type (Some ''replace'') =
           (Ok_response \<lparr>success = True, rowsInserted = inserted_rows (batches_of 1000 rows) oks,
              totalRows = length rows, table_ref = datasetId @ ''.'' @ tableId,
              write_mode = ''replace''\<rparr>,
            Exists_call # Delete_call False
              # map (\<lambda>(batch, ok). Insert_call batch ok) (zip (batches_of 1000 rows) oks),
            s3)
       \<and> concat (batches_of 1000 rows) = rows
       \<and> length oks = length (batches_of 1000 rows)"
proof (intro conjI)
  have purge: "([Exists_call, Delete_call False], s2) =
      (if (case Some ''replace'' of None \<Rightarrow> ''append'' | Some m \<Rightarrow> m) = ''replace''
         then (case delete_all w datasetId tableId s1 of
                 (Resolved u, s') \<Rightarrow> ([Exists_call, Delete_call True], s')
               | (Rejected deleteError, s') \<Rightarrow> ([Exists_call, Delete_call False], s'))
         else ([Exists_call], s1))"
    using assms(7) by simp
  show "POST w JSON_parse s datasetId tableId content data_type (Some ''replace'') =
           (Ok_response \<lparr>success = True, rowsInserted = inserted_rows (batches_of 1000 rows) oks,
              totalRows = length rows, table_ref = datasetId @ ''.'' @ tableId,
              write_mode = ''replace''\<rparr>,
            Exists_call # Delete_call False
              # map (\<lambda>(batch, ok). Insert_call batch ok) (zip (batches_of 1000 rows) oks),
            s3)"
    using POST_loads [OF assms(1-6) purge assms(8)] by simp
  show "concat (batches_of 1000 rows) = rows" by (simp add: concat_batches_of)
  show "length oks = length (batches_of 1000 rows)" using assms(8) by (rule length_submit)
qed

theorem replace_swallows_purge_failure_witness:
  "delete_all flaky_warehouse ''shop'' ''orders'' (0, []) = (Rejected ''quota exceeded'', (1, []))
   \<and> submit flaky_warehouse ''shop'' ''orders'' (batches_of 1000 (replicate 1500 [])) (1, [])
       = ([True, False], (3, replicate 1000 []))
   \<and> POST flaky_warehouse many_records (0, []) ''shop'' ''orders'' ''[{}, ...]'' ''json''
        (Some ''replace'') =
       (Ok_response \<lparr>success = True, rowsInserted = 1000, totalRows = 1500,
          table_ref = ''shop.orders'', write_mode = ''replace''\<rparr>,
        [Exists_call, Delete_call False,
         Insert_call (replicate 1000 []) True, Insert_call (replicate 500 []) False],
        (3, replicate 1000 []))"
proof -
  have parsed: "parseJSON many_records ''[{}, ...]'' = Inr (replicate 1500 [])"
    by (simp add: parseJSON_def many_records_def map_records_replicate)
  have ex: "table_exists flaky_warehouse ''shop'' ''orders'' (0, []) = (Resolved True, (0, []))"
    and del: "delete_all flaky_warehouse ''shop'' ''orders'' (0, [])
        = (Rejected ''quota exceeded'', (1, []))"
    by (simp_all add: flaky_warehouse_def)
  have sub: "submit flaky_warehouse ''shop'' ''orders'' (batches_of 1000 (replicate 1500 [])) (1, [])
       = ([True, False], (3, replicate 1000 []))"
    by (simp add: batches_of_1500 flaky_warehouse_def)
  have "POST flaky_warehouse many_records (0, []) ''shop'' ''orders'' ''[{}, ...]'' ''json''
        (Some ''replace'') =
       (Ok_response \<lparr>success = True, rowsInserted = 1000, totalRows = 1500,
          table_ref = ''shop.orders'', write_mode = ''replace''\<rparr>,
        [Exists_call, Delete_call False,
         Insert_call (replicate 1000 []) True, Insert_call (replicate 500 []) False],
        (3, replicate 1000 []))"
    using replace_swallows_purge_failure [of "''shop''" "''orders''" "''[{}, ...]''" "''json''"
        "replicate 1500 []" many_records flaky_warehouse "(0, [])" "(0, [])"
        "''quota exceeded''" "(1, [])" "[True, False]" "(3, replicate 1000 [])"]
      parsed ex del sub
    by (simp add: batches_of_1500 inserted_rows_def)
  with del sub show ?thesis by simp
qed

end
